theory Spec2Isabelle
  imports Main "HOL-Library.Word"
begin

unbundle bit_operations_syntax

section \<open>Python text primitives used by qris\_editor.py\<close>

text \<open>
  The payload text of the parser and the editor is modelled as an Isabelle \<open>string\<close>; a
  character stands for its code point, so this part of the model covers text over the code
  points 0..255. \<open>validate_qris\<close>, which meets text from outside before the parser does, is
  modelled over a larger alphabet (\<open>uchar\<close> below) that also holds characters without an
  encoding. Slicing and searching are the same for both and are written for lists of any
  element type. Cursor positions and lengths are Python integers,
  hence \<open>int\<close>: a length field such as \<open>-4\<close> makes them negative, and slicing then
  follows Python's rule for negative indices.
\<close>

definition code_point :: "char \<Rightarrow> nat" where
  "code_point c = of_char c"

text \<open>\<open>s[i:j]\<close>: a negative index counts from the end, and both ends are clamped.\<close>

definition py_index :: "nat \<Rightarrow> int \<Rightarrow> nat" where
  "py_index n k = (if k < 0 then nat (max 0 (k + int n)) else min (nat k) n)"

definition py_slice :: "'a list \<Rightarrow> int \<Rightarrow> int \<Rightarrow> 'a list" where
  "py_slice s i j =
     (let lo = py_index (length s) i; hi = py_index (length s) j
      in take (hi - lo) (drop lo s))"

text \<open>The characters \<open>str.strip()\<close> removes (\<open>str.isspace\<close>, code points below 256).\<close>

definition is_space :: "char \<Rightarrow> bool" where
  "is_space c =
     (let n = code_point c
      in (9 \<le> n \<and> n \<le> 13) \<or> (28 \<le> n \<and> n \<le> 32) \<or> n = 133 \<or> n = 160)"

definition py_strip :: "string \<Rightarrow> string" where
  "py_strip s = rev (dropWhile is_space (rev (dropWhile is_space s)))"

text \<open>
  \<open>int(s)\<close> on a \<open>str\<close>: surrounding whitespace is skipped (the separators 28..31 are
  not whitespace here), one sign is allowed, then decimal digits, with single underscores
  between digits. \<open>None\<close> is the \<open>ValueError\<close>. (The limit of 4300 digits is left out:
  the program passes slices of at most two characters.)
\<close>

definition is_digit :: "char \<Rightarrow> bool" where
  "is_digit c = (48 \<le> code_point c \<and> code_point c \<le> 57)"

definition digit_val :: "char \<Rightarrow> int" where
  "digit_val c = int (code_point c) - 48"

definition is_int_space :: "char \<Rightarrow> bool" where
  "is_int_space c =
     (let n = code_point c
      in (9 \<le> n \<and> n \<le> 13) \<or> n = 32 \<or> n = 133 \<or> n = 160)"

fun int_digits :: "string \<Rightarrow> int \<Rightarrow> int option" where
  "int_digits [] acc = Some acc"
| "int_digits [c] acc = (if is_digit c then Some (10 * acc + digit_val c) else None)"
| "int_digits (c # d # cs) acc =
     (if is_digit c then int_digits (d # cs) (10 * acc + digit_val c)
      else if c = CHR ''_'' \<and> is_digit d then int_digits cs (10 * acc + digit_val d)
      else None)"

definition int_unsigned :: "string \<Rightarrow> int option" where
  "int_unsigned s =
     (case s of [] \<Rightarrow> None
      | c # cs \<Rightarrow> if is_digit c then int_digits cs (digit_val c) else None)"

definition py_int :: "string \<Rightarrow> int option" where
  "py_int s =
     (case rev (dropWhile is_int_space (rev (dropWhile is_int_space s))) of
        [] \<Rightarrow> None
      | c # cs \<Rightarrow>
          if c = CHR ''+'' then int_unsigned cs
          else if c = CHR ''-'' then map_option uminus (int_unsigned cs)
          else int_unsigned (c # cs))"

text \<open>\<open>str(n)\<close> and the format \<open>{n:02d}\<close> (sign included in the width of 2).\<close>

definition digit_char :: "nat \<Rightarrow> char" where
  "digit_char d = char_of (48 + d)"

fun nat_str :: "nat \<Rightarrow> string" where
  "nat_str n = (if n < 10 then [digit_char n] else nat_str (n div 10) @ [digit_char (n mod 10)])"

declare nat_str.simps [simp del]

definition int_str :: "int \<Rightarrow> string" where
  "int_str i = (if i < 0 then CHR ''-'' # nat_str (nat (- i)) else nat_str (nat i))"

definition fmt_02d :: "int \<Rightarrow> string" where
  "fmt_02d i =
     (if i < 0 then CHR ''-'' # replicate (1 - length (nat_str (nat (- i)))) CHR ''0'' @ nat_str (nat (- i))
      else replicate (2 - length (nat_str (nat i))) CHR ''0'' @ nat_str (nat i))"

text \<open>\<open>sub in s\<close>, \<open>s.rfind(sub)\<close> and \<open>s.startswith(p)\<close>.\<close>

definition occurs_at :: "'a list \<Rightarrow> 'a list \<Rightarrow> nat \<Rightarrow> bool" where
  "occurs_at s sub i = (i + length sub \<le> length s \<and> take (length sub) (drop i s) = sub)"

definition py_in :: "'a list \<Rightarrow> 'a list \<Rightarrow> bool" where
  "py_in sub s = list_ex (occurs_at s sub) [0..<Suc (length s)]"

definition py_rfind :: "'a list \<Rightarrow> 'a list \<Rightarrow> int" where
  "py_rfind s sub =
     (case filter (occurs_at s sub) (rev [0..<Suc (length s)]) of
        [] \<Rightarrow> - 1
      | i # _ \<Rightarrow> int i)"

definition startswith :: "'a list \<Rightarrow> 'a list \<Rightarrow> bool" where
  "startswith s p = (take (length p) s = p)"

text \<open>
  \<open>str.encode()\<close>: UTF-8, two bytes for the code points 128..255. Every character of a
  \<open>string\<close> has an encoding; the \<open>UnicodeEncodeError\<close> of \<open>str.encode()\<close> arises only for
  text outside this alphabet (\<open>encode_text\<close> below).
\<close>

definition encode_char :: "char \<Rightarrow> 8 word list" where
  "encode_char c =
     (let n = code_point c
      in if n < 128 then [of_nat n] else [of_nat (192 + n div 64), of_nat (128 + n mod 64)])"

definition encode :: "string \<Rightarrow> 8 word list" where
  "encode s = concat (map encode_char s)"

section \<open>The text validate\_qris receives\<close>

text \<open>
  The characters of the text \<open>validate_qris\<close> is modelled on: the code points 0..255
  (\<open>Ch\<close>), the two upper-case forms that \<open>str.upper()\<close> gives outside that range,
  U+039C for the micro sign and U+0178 for y with diaeresis, and the lone surrogates
  U+D800..U+DFFF (\<open>Lone k\<close> is U+D800 + k), which a Python \<open>str\<close> can hold and
  \<open>str.encode()\<close> rejects.
\<close>

datatype uchar = Ch char | CapitalMu | CapitalY | Lone "11 word"

definition utext :: "string \<Rightarrow> uchar list" where
  "utext s = map Ch s"

text \<open>
  \<open>str.upper()\<close>: a..z and the Latin-1 letters 224..254 (except the division sign 247)
  move down by 32; the sharp s becomes \<open>SS\<close>, the micro sign (181) U+039C and y with
  diaeresis (255) U+0178; every other character of the alphabet is kept.
\<close>

definition upper_uchar :: "uchar \<Rightarrow> uchar list" where
  "upper_uchar u =
     (case u of
        Ch c \<Rightarrow>
          (let n = code_point c
           in if (97 \<le> n \<and> n \<le> 122) \<or> (224 \<le> n \<and> n \<le> 254 \<and> n \<noteq> 247)
                then [Ch (char_of (n - 32))]
              else if n = 223 then utext ''SS''
              else if n = 181 then [CapitalMu]
              else if n = 255 then [CapitalY]
              else [Ch c])
      | _ \<Rightarrow> [u])"

definition py_upper :: "uchar list \<Rightarrow> uchar list" where
  "py_upper s = concat (map upper_uchar s)"

text \<open>
  \<open>str.encode()\<close> on this alphabet: UTF-8, and \<open>None\<close> for the \<open>UnicodeEncodeError\<close>
  a lone surrogate raises.
\<close>

definition encode_uchar :: "uchar \<Rightarrow> 8 word list option" where
  "encode_uchar u =
     (case u of
        Ch c \<Rightarrow> Some (encode_char c)
      | CapitalMu \<Rightarrow> Some [0xCE, 0x9C]
      | CapitalY \<Rightarrow> Some [0xC5, 0xB8]
      | Lone k \<Rightarrow> None)"

primrec encode_text :: "uchar list \<Rightarrow> 8 word list option" where
  "encode_text [] = Some []"
| "encode_text (u # us) =
     (case encode_uchar u of
        None \<Rightarrow> None
      | Some b \<Rightarrow> map_option ((@) b) (encode_text us))"

section \<open>Checksum engine\<close>

text \<open>
  Modelled from the spec: the \<open>crc\<close> package (\<open>Calculator(Crc16.IBM_3740).checksum\<close>) is
  a dependency whose code is not part of the sources. Section 4.5 gives its parameters:
  width 16, polynomial 0x1021, initial value 0xFFFF, no reflection of input or output, no
  final XOR. The register is a 16-bit word; a byte enters at the top and is followed by
  eight shift steps.
\<close>

definition crc_shift :: "16 word \<Rightarrow> 16 word" where
  "crc_shift r = (if bit r 15 then push_bit 1 r XOR 0x1021 else push_bit 1 r)"

definition crc_byte :: "16 word \<Rightarrow> 8 word \<Rightarrow> 16 word" where
  "crc_byte r b = (crc_shift ^^ 8) (r XOR push_bit 8 (ucast b))"

definition crc16 :: "8 word list \<Rightarrow> 16 word" where
  "crc16 bs = foldl crc_byte 0xFFFF bs"

text \<open>\<open>format(v, '04X')\<close> for a 16-bit value: four upper-case hexadecimal digits.\<close>

definition hex_char :: "nat \<Rightarrow> char" where
  "hex_char d = (if d < 10 then char_of (48 + d) else char_of (55 + d))"

definition format_04X :: "16 word \<Rightarrow> string" where
  "format_04X w =
     [hex_char (unat (drop_bit 12 w)), hex_char (unat (drop_bit 8 w AND 15)),
      hex_char (unat (drop_bit 4 w AND 15)), hex_char (unat (w AND 15))]"

text \<open>\<open>QRISEditor._calculate_checksum\<close>.\<close>

definition calculate_checksum :: "string \<Rightarrow> string" where
  "calculate_checksum data = format_04X (crc16 (encode data))"

section \<open>QRISParser\<close>

record field =
  tag :: string
  name :: string
  len :: int
  val :: string

text \<open>\<open>TAGS.get(tag, f'Unknown Tag {tag}')\<close>.\<close>

definition TAGS :: "(string \<times> string) list" where
  "TAGS =
     [(''00'', ''Payload Format Indicator''),
      (''01'', ''Point of Initiation Method''),
      (''26'', ''Merchant Account Information''),
      (''51'', ''Merchant Account Information (QRIS)''),
      (''52'', ''Merchant Category Code''),
      (''53'', ''Transaction Currency''),
      (''54'', ''Transaction Amount''),
      (''55'', ''Tip or Convenience Indicator''),
      (''56'', ''Value of Convenience Fee Fixed''),
      (''57'', ''Value of Convenience Fee Percentage''),
      (''58'', ''Country Code''),
      (''59'', ''Merchant Name''),
      (''60'', ''Merchant City''),
      (''61'', ''Postal Code''),
      (''62'', ''Additional Data Field Template''),
      (''63'', ''CRC (Checksum)'')]"

definition tag_name :: "string \<Rightarrow> string" where
  "tag_name t = (case map_of TAGS t of Some n \<Rightarrow> n | None \<Rightarrow> ''Unknown Tag '' @ t)"

type_synonym document = "string \<rightharpoonup> field"

text \<open>
  \<open>QRISParser._parse\<close>: the while loop, with the cursor and the dictionary as arguments.
  \<open>None\<close> is a loop that never ends.
\<close>

partial_function (option) parse_loop :: "string \<Rightarrow> int \<Rightarrow> document \<Rightarrow> document option" where
  "parse_loop data pos d =
     (if pos < int (length data) then
        if pos + 4 > int (length data) then Some d
        else
          let t = py_slice data pos (pos + 2) in
          case py_int (py_slice data (pos + 2) (pos + 4)) of
            None \<Rightarrow> Some d
          | Some l \<Rightarrow>
              let v = py_slice data (pos + 4) (pos + 4 + l) in
              parse_loop data (pos + 4 + l)
                (d(t \<mapsto> \<lparr>tag = t, name = tag_name t, len = l, val = v\<rparr>))
      else Some d)"

declare parse_loop.simps [code]

record parser =
  p_raw :: string
  p_data :: document

definition QRISParser :: "string \<Rightarrow> parser option" where
  "QRISParser qris_string =
     (let r = py_strip qris_string
      in map_option (\<lambda>d. \<lparr>p_raw = r, p_data = d\<rparr>) (parse_loop r 0 Map.empty))"

text \<open>\<open>self.data.get(t, {}).get('value', '')\<close>.\<close>

definition get_value :: "document \<Rightarrow> string \<Rightarrow> string" where
  "get_value d t = (case d t of None \<Rightarrow> [] | Some f \<Rightarrow> val f)"

text \<open>The properties \<open>nmid\<close>, \<open>acquiring_id\<close> and \<open>terminal_id\<close>: each has its own loop.\<close>

partial_function (option) nmid_loop :: "string \<Rightarrow> int \<Rightarrow> string option" where
  "nmid_loop tag51_value pos =
     (if pos < int (length tag51_value) then
        if pos + 4 > int (length tag51_value) then Some []
        else
          let subtag = py_slice tag51_value pos (pos + 2) in
          case py_int (py_slice tag51_value (pos + 2) (pos + 4)) of
            None \<Rightarrow> Some []
          | Some sublength \<Rightarrow>
              let subvalue = py_slice tag51_value (pos + 4) (pos + 4 + sublength) in
              if subtag = ''02'' then Some subvalue
              else nmid_loop tag51_value (pos + 4 + sublength)
      else Some [])"

declare nmid_loop.simps [code]

definition nmid :: "parser \<Rightarrow> string option" where
  "nmid p =
     (let tag51_value = get_value (p_data p) ''51'';
          tag51_value = (if tag51_value = [] then get_value (p_data p) ''26'' else tag51_value)
      in nmid_loop tag51_value 0)"

partial_function (option) acquiring_id_loop :: "string \<Rightarrow> int \<Rightarrow> string option" where
  "acquiring_id_loop tag_value pos =
     (if pos < int (length tag_value) then
        if pos + 4 > int (length tag_value) then Some []
        else
          let subtag = py_slice tag_value pos (pos + 2) in
          case py_int (py_slice tag_value (pos + 2) (pos + 4)) of
            None \<Rightarrow> Some []
          | Some sublength \<Rightarrow>
              let subvalue = py_slice tag_value (pos + 4) (pos + 4 + sublength) in
              if subtag = ''01''
              then Some (if length subvalue \<ge> 8 then py_slice subvalue 0 8 else subvalue)
              else acquiring_id_loop tag_value (pos + 4 + sublength)
      else Some [])"

declare acquiring_id_loop.simps [code]

definition acquiring_id :: "parser \<Rightarrow> string option" where
  "acquiring_id p =
     (let tag_value = get_value (p_data p) ''26'';
          tag_value = (if tag_value = [] then get_value (p_data p) ''51'' else tag_value)
      in acquiring_id_loop tag_value 0)"

partial_function (option) terminal_id_loop :: "string \<Rightarrow> int \<Rightarrow> string option" where
  "terminal_id_loop tag62_value pos =
     (if pos < int (length tag62_value) then
        if pos + 4 > int (length tag62_value) then Some []
        else
          let subtag = py_slice tag62_value pos (pos + 2) in
          case py_int (py_slice tag62_value (pos + 2) (pos + 4)) of
            None \<Rightarrow> Some []
          | Some sublength \<Rightarrow>
              let subvalue = py_slice tag62_value (pos + 4) (pos + 4 + sublength) in
              if subtag = ''07'' then Some subvalue
              else terminal_id_loop tag62_value (pos + 4 + sublength)
      else Some [])"

declare terminal_id_loop.simps [code]

definition terminal_id :: "parser \<Rightarrow> string option" where
  "terminal_id p = terminal_id_loop (get_value (p_data p) ''62'') 0"

definition merchant_name :: "parser \<Rightarrow> string" where
  "merchant_name p = get_value (p_data p) ''59''"

definition merchant_city :: "parser \<Rightarrow> string" where
  "merchant_city p = get_value (p_data p) ''60''"

definition postal_code :: "parser \<Rightarrow> string" where
  "postal_code p = get_value (p_data p) ''61''"

definition checksum :: "parser \<Rightarrow> string" where
  "checksum p = get_value (p_data p) ''63''"

text \<open>
  \<open>get_info\<close>: the dictionary literal, as the list of its items in order. The three nested
  scans run while it is built, so it returns only if they do.
\<close>

definition get_info :: "parser \<Rightarrow> (string \<times> string) list option" where
  "get_info p =
     Option.bind (nmid p) (\<lambda>n.
     Option.bind (terminal_id p) (\<lambda>t.
     Option.bind (acquiring_id p) (\<lambda>a.
       Some
         [(''Merchant Name'', merchant_name p),
          (''Merchant City'', merchant_city p),
          (''NMID'', n),
          (''Terminal ID'', t),
          (''Acquiring ID'', a),
          (''Country Code'', get_value (p_data p) ''58''),
          (''Postal Code'', get_value (p_data p) ''61''),
          (''Merchant Category'', get_value (p_data p) ''52''),
          (''Currency'', get_value (p_data p) ''53''),
          (''Checksum'', checksum p)])))"

text \<open>
  \<open>display_info\<close>: the strings passed to \<open>print\<close>, in order. \<open>{key:20}\<close> pads the key
  with spaces on the right to 20 characters.
\<close>

definition info_line :: "string \<times> string \<Rightarrow> string" where
  "info_line kv =
     ''  '' @ fst kv @ replicate (20 - length (fst kv)) CHR '' '' @ '': '' @ snd kv"

definition display_info :: "parser \<Rightarrow> string list option" where
  "display_info p =
     map_option
       (\<lambda>info.
          [CHR 0x0A # replicate 50 CHR ''='',
           ''          QRIS MERCHANT INFORMATION'',
           replicate 50 CHR ''='']
          @ map info_line (filter (\<lambda>kv. snd kv \<noteq> []) info)
          @ [replicate 50 CHR ''-'',
             ''  QRIS Raw Value:'',
             ''  '' @ p_raw p,
             replicate 50 CHR ''='' @ [CHR 0x0A]])
       (get_info p)"

section \<open>QRISEditor\<close>

record editor =
  e_raw :: string
  e_parser :: parser
  modifications :: "string \<rightharpoonup> string"

definition QRISEditor :: "string \<Rightarrow> editor option" where
  "QRISEditor qris_string =
     (let r = py_strip qris_string
      in map_option (\<lambda>p. \<lparr>e_raw = r, e_parser = p, modifications = Map.empty\<rparr>) (QRISParser r))"

definition set_merchant_name :: "editor \<Rightarrow> string \<Rightarrow> editor" where
  "set_merchant_name e n =
     (if n \<noteq> [] then e\<lparr>modifications := (modifications e)(''59'' \<mapsto> n)\<rparr> else e)"

definition set_merchant_city :: "editor \<Rightarrow> string \<Rightarrow> editor" where
  "set_merchant_city e city =
     (if city \<noteq> [] then e\<lparr>modifications := (modifications e)(''60'' \<mapsto> city)\<rparr> else e)"

definition set_postal_code :: "editor \<Rightarrow> string \<Rightarrow> editor" where
  "set_postal_code e pc =
     (if pc \<noteq> [] then e\<lparr>modifications := (modifications e)(''61'' \<mapsto> pc)\<rparr> else e)"

text \<open>
  The exceptions: the \<open>ValueError\<close> that \<open>build\<close> raises for an overlong value, with its
  message, the one \<open>int\<close> would raise when the cursor is advanced, and the
  \<open>UnicodeEncodeError\<close> of \<open>str.encode()\<close>.
\<close>

datatype error = ValueError string | InvalidLiteral string | UnicodeEncodeError

definition too_long :: "string \<Rightarrow> int \<Rightarrow> int \<Rightarrow> error" where
  "too_long t l m =
     ValueError (''Tag '' @ t @ '' value terlalu panjang ('' @ int_str l
                 @ '' karakter, max '' @ int_str m @ '')'')"

definition max_len :: "string \<Rightarrow> int" where
  "max_len t =
     (if t = ''59'' then 25 else if t = ''60'' then 15 else if t = ''61'' then 5 else 99)"

text \<open>
  The loop of \<open>build\<close>; \<open>result\<close> is the list of emitted fields. The cursor advances by the
  length field read again from \<open>data\<close>.
\<close>

partial_function (option) build_loop ::
  "string \<Rightarrow> (string \<rightharpoonup> string) \<Rightarrow> int \<Rightarrow> string list \<Rightarrow> (error + string list) option" where
  "build_loop data mods pos result =
     (if pos < int (length data) then
        if pos + 4 > int (length data) then Some (Inr result)
        else
          let t = py_slice data pos (pos + 2) in
          case py_int (py_slice data (pos + 2) (pos + 4)) of
            None \<Rightarrow> Some (Inr result)
          | Some l \<Rightarrow>
              let v = py_slice data (pos + 4) (pos + 4 + l) in
              if t = ''63'' then build_loop data mods (pos + 4 + l) result
              else
                let v = (case mods t of Some m \<Rightarrow> m | None \<Rightarrow> v);
                    l = (case mods t of Some m \<Rightarrow> int (length m) | None \<Rightarrow> l)
                in if l > max_len t then Some (Inl (too_long t l (max_len t)))
                   else
                     case py_int (py_slice data (pos + 2) (pos + 4)) of
                       None \<Rightarrow> Some (Inl (InvalidLiteral (py_slice data (pos + 2) (pos + 4))))
                     | Some adv \<Rightarrow>
                         build_loop data mods (pos + 4 + adv) (result @ [t @ fmt_02d l @ v])
      else Some (Inr result))"

declare build_loop.simps [code]

definition build :: "editor \<Rightarrow> (error + string) option" where
  "build e =
     (case build_loop (e_raw e) (modifications e) 0 [] of
        None \<Rightarrow> None
      | Some (Inl err) \<Rightarrow> Some (Inl err)
      | Some (Inr result) \<Rightarrow>
          let qris_without_checksum = concat result @ ''6304'';
              cs = calculate_checksum qris_without_checksum
          in Some (Inr (qris_without_checksum @ cs)))"

text \<open>
  The editing step of \<open>main\<close> (lines 494-502): an editor for the payload, a setter for
  each input that is not empty, then \<open>build\<close>.
\<close>

definition edited :: "string \<Rightarrow> string \<Rightarrow> string \<Rightarrow> string \<Rightarrow> (error + string) option" where
  "edited qris_data new_name new_city new_postal =
     (case QRISEditor qris_data of
        None \<Rightarrow> None
      | Some editor \<Rightarrow>
          let editor = (if new_name \<noteq> [] then set_merchant_name editor new_name else editor);
              editor = (if new_city \<noteq> [] then set_merchant_city editor new_city else editor);
              editor = (if new_postal \<noteq> [] then set_postal_code editor new_postal else editor)
          in build editor)"

section \<open>QRCodeHandler.validate\_qris\<close>

text \<open>
  The four early checks, then the checksum comparison: the stored characters are upper-cased
  first (line 277), then the text before them is encoded and its checksum computed (lines
  279-280); the encoding is not guarded, so its exception leaves the function.
\<close>

definition validate_qris :: "uchar list \<Rightarrow> error + bool \<times> uchar list" where
  "validate_qris d =
     (if length d < 50 then Inr (False, utext ''Data terlalu pendek untuk QRIS valid'')
      else if \<not> startswith d (utext ''000201'')
        then Inr (False, utext ''Bukan format QRIS (tidak dimulai dengan 000201)'')
      else if \<not> py_in (utext ''6304'') d
        then Inr (False, utext ''Tidak ditemukan checksum (Tag 63)'')
      else
        let checksum_pos = py_rfind d (utext ''6304'') in
        if checksum_pos = - 1 \<or> int (length d) < checksum_pos + 8
        then Inr (False, utext ''Format checksum tidak valid'')
        else
          let data_without_checksum = py_slice d 0 (checksum_pos + 4);
              checksum_in_data = py_upper (py_slice d (checksum_pos + 4) (checksum_pos + 8))
          in case encode_text data_without_checksum of
               None \<Rightarrow> Inl UnicodeEncodeError
             | Some bytes \<Rightarrow>
                 let calculated_checksum = utext (format_04X (crc16 bytes))
                 in if checksum_in_data \<noteq> calculated_checksum
                    then Inr (False, utext ''Checksum tidak valid (expected: ''
                                @ calculated_checksum @ utext '', got: '' @ checksum_in_data
                                @ utext '')'')
                    else if \<not> py_in (utext ''59'') d
                      then Inr (False, utext ''Tidak ditemukan nama merchant (Tag 59)'')
                    else Inr (True, utext ''QRIS valid''))"

section \<open>The fields a scan decodes\<close>

text \<open>
  All five loops share their head: they stop when fewer than four characters are left or
  \<open>int\<close> rejects the length field, and otherwise decode a tag, a length and a value and
  move the cursor by \<open>4 + length\<close>. \<open>read_field\<close> is that head; \<open>decoded n data pos\<close>
  lists the first \<open>n\<close> fields a scan from \<open>pos\<close> decodes (fewer if the scan stops before).
\<close>

type_synonym tlv = "string \<times> int \<times> string"

definition read_field :: "string \<Rightarrow> int \<Rightarrow> tlv option" where
  "read_field data pos =
     (if pos < int (length data) \<and> \<not> pos + 4 > int (length data) then
        case py_int (py_slice data (pos + 2) (pos + 4)) of
          None \<Rightarrow> None
        | Some l \<Rightarrow> Some (py_slice data pos (pos + 2), l, py_slice data (pos + 4) (pos + 4 + l))
      else None)"

fun decoded :: "nat \<Rightarrow> string \<Rightarrow> int \<Rightarrow> tlv list" where
  "decoded 0 data pos = []"
| "decoded (Suc n) data pos =
     (case read_field data pos of
        None \<Rightarrow> []
      | Some (t, l, v) \<Rightarrow> (t, l, v) # decoded n data (pos + 4 + l))"

text \<open>The scan from \<open>pos\<close> stops after fewer than \<open>n\<close> fields.\<close>

definition stops_within :: "nat \<Rightarrow> string \<Rightarrow> int \<Rightarrow> bool" where
  "stops_within n data pos = (length (decoded n data pos) < n)"

definition store :: "document \<Rightarrow> tlv \<Rightarrow> document" where
  "store d f =
     (case f of (t, l, v) \<Rightarrow> d(t \<mapsto> \<lparr>tag = t, name = tag_name t, len = l, val = v\<rparr>))"

text \<open>The dictionary entry \<open>_parse\<close> makes of a decoded field.\<close>

definition entry :: "tlv \<Rightarrow> field" where
  "entry f = (case f of (t, l, v) \<Rightarrow> \<lparr>tag = t, name = tag_name t, len = l, val = v\<rparr>)"

text \<open>
  A field as \<open>build\<close> sees it after override substitution: the override's text and its
  character count replace the decoded value and length.
\<close>

definition substituted :: "(string \<rightharpoonup> string) \<Rightarrow> tlv \<Rightarrow> tlv" where
  "substituted mods f =
     (case f of (t, l, v) \<Rightarrow>
        (case mods t of Some m \<Rightarrow> (t, int (length m), m) | None \<Rightarrow> (t, l, v)))"

definition too_long_field :: "tlv \<Rightarrow> bool" where
  "too_long_field f = (case f of (t, l, v) \<Rightarrow> l > max_len t)"

definition overlong :: "(string \<rightharpoonup> string) \<Rightarrow> tlv \<Rightarrow> bool" where
  "overlong mods f = (fst f \<noteq> ''63'' \<and> too_long_field (substituted mods f))"

definition report :: "tlv \<Rightarrow> error" where
  "report f = (case f of (t, l, v) \<Rightarrow> too_long t l (max_len t))"

text \<open>The text \<open>build\<close> appends for a field: tag, two-character length, value.\<close>

definition wire :: "tlv \<Rightarrow> string" where
  "wire f = (case f of (t, l, v) \<Rightarrow> t @ fmt_02d l @ v)"

definition emitted :: "(string \<rightharpoonup> string) \<Rightarrow> tlv list \<Rightarrow> string list" where
  "emitted mods fs = map (\<lambda>f. wire (substituted mods f)) (filter (\<lambda>f. fst f \<noteq> ''63'') fs)"

text \<open>Reading a decimal numeral back: the value of a string of digits.\<close>

definition dec_value :: "string \<Rightarrow> int" where
  "dec_value s = foldl (\<lambda>a c. 10 * a + digit_val c) 0 s"

text \<open>Reading a checksum back: the value of a string of hexadecimal digits.\<close>

definition is_upper_hex :: "char \<Rightarrow> bool" where
  "is_upper_hex c = (let n = code_point c in (48 \<le> n \<and> n \<le> 57) \<or> (65 \<le> n \<and> n \<le> 70))"

definition hex_digit_val :: "char \<Rightarrow> nat" where
  "hex_digit_val c = (let n = code_point c in if n < 58 then n - 48 else n - 55)"

definition hex_value :: "string \<Rightarrow> nat" where
  "hex_value s = foldl (\<lambda>a c. 16 * a + hex_digit_val c) 0 s"

text \<open>The end of \<open>build\<close>: join the emitted fields, append \<open>6304\<close> and the checksum.\<close>

definition assemble :: "string list \<Rightarrow> string" where
  "assemble result =
     (let qris_without_checksum = concat result @ ''6304''
      in qris_without_checksum @ calculate_checksum qris_without_checksum)"

text \<open>
  What \<open>build\<close> returns when its loop decodes the fields \<open>fs\<close>: the error for the first
  overlong field, or else the payload assembled from all of them.
\<close>

definition outcome :: "(string \<rightharpoonup> string) \<Rightarrow> tlv list \<Rightarrow> error + string \<Rightarrow> bool" where
  "outcome mods fs y =
     (case find (overlong mods) fs of
        Some f \<Rightarrow> y = Inl (report (substituted mods f))
      | None \<Rightarrow> y = Inr (assemble (emitted mods fs)))"

text \<open>Example payloads.\<close>

definition sample_payload :: string where
  "sample_payload = ''0002010102115204541153033605802ID5908TOKO ABC6007JAKARTA61051234563044AEE''"

definition overlong_payload :: string where
  "overlong_payload = ''0002015926ABCDEFGHIJKLMNOPQRSTUVWXYZ''"


text \<open>The first example payload with its checksum digits in lower case.\<close>

definition lower_payload :: string where
  "lower_payload = ''0002010102115204541153033605802ID5908TOKO ABC6007JAKARTA61051234563044aee''"


text \<open>
  The payloads of the round trip: a list of fields (tag, value), each written as tag,
  two-digit length and value (data model, section 3), then \<open>6304\<close> and the checksum.
\<close>

definition well_formed_field :: "string \<times> string \<Rightarrow> bool" where
  "well_formed_field f =
     (case f of (t, v) \<Rightarrow>
        length t = 2 \<and> list_all is_digit t \<and> t \<noteq> ''63'' \<and> int (length v) \<le> max_len t)"

definition field_text :: "string \<times> string \<Rightarrow> string" where
  "field_text f = (case f of (t, v) \<Rightarrow> wire (t, int (length v), v))"

definition serialise :: "(string \<times> string) list \<Rightarrow> string" where
  "serialise fs = assemble (map field_text fs)"

section \<open>The checksum engine (4.5)\<close>

lemma hex_digit_val_hex_char: "d < 16 \<Longrightarrow> hex_digit_val (hex_char d) = d"
  by (simp add: hex_digit_val_def hex_char_def code_point_def Let_def)

lemma is_upper_hex_hex_char: "d < 16 \<Longrightarrow> is_upper_hex (hex_char d)"
  by (simp add: is_upper_hex_def hex_char_def code_point_def Let_def)

lemma unat16: "unat (w :: 16 word) < 65536"
  using unsigned_less [of w, where 'a = nat] by simp

lemma and_15: "unat ((x :: 16 word) AND 15) = unat x mod 16"
proof -
  have "(15 :: 16 word) = mask 4" by (simp add: mask_eq_exp_minus_1)
  then have "x AND 15 = take_bit 4 x" by (simp only: take_bit_eq_mask)
  then have "unat (x AND 15) = take_bit 4 (unat x)" by (simp only: unsigned_take_bit_eq)
  then show ?thesis by (simp add: take_bit_eq_mod)
qed

lemma unat_drop: "unat (drop_bit n (x :: 16 word)) = unat x div 2 ^ n"
proof -
  have "unat (drop_bit n x) = drop_bit n (unat x)" by (rule unat_drop_bit_eq)
  then show ?thesis by (simp only: drop_bit_eq_div)
qed

lemma nibble_sum:
  "16 * (16 * (16 * (x div 4096) + x div 256 mod 16) + x div 16 mod 16) + x mod 16 = (x :: nat)"
proof -
  have a: "x div 16 = 16 * (x div 256) + x div 16 mod 16"
    using div_mult2_eq [of x 16 16] by (simp add: mult_div_mod_eq)
  have b: "x div 256 = 16 * (x div 4096) + x div 256 mod 16"
    using div_mult2_eq [of x 256 16] by (simp add: mult_div_mod_eq)
  have "x = 16 * (x div 16) + x mod 16" by simp
  with a b show ?thesis by simp
qed

lemma nibbles:
  fixes w :: "16 word"
  shows "unat (drop_bit 12 w) = unat w div 4096"
    and "unat (drop_bit 8 w AND 15) = unat w div 256 mod 16"
    and "unat (drop_bit 4 w AND 15) = unat w div 16 mod 16"
    and "unat w div 4096 < 16"
  using unat16 [of w] by (simp_all add: and_15 unat_drop)

lemma hex_value_format_04X: "hex_value (format_04X w) = unat w"
proof -
  have "hex_value (format_04X w) =
      16 * (16 * (16 * (unat w div 4096) + unat w div 256 mod 16) + unat w div 16 mod 16)
      + unat w mod 16"
    using nibbles(4) [of w]
    by (simp add: hex_value_def format_04X_def and_15 unat_drop hex_digit_val_hex_char)
  then show ?thesis by (simp only: nibble_sum)
qed

lemma format_04X_upper_hex: "list_all is_upper_hex (format_04X w)"
  using nibbles(4) [of w] by (simp add: format_04X_def and_15 unat_drop is_upper_hex_hex_char)

lemma crc_byte_unfold:
  "crc_byte r b =
     crc_shift (crc_shift (crc_shift (crc_shift (crc_shift (crc_shift (crc_shift (crc_shift
       (r XOR push_bit 8 (ucast b)))))))))"
  by (simp add: crc_byte_def eval_nat_numeral)

lemma hex_char_eval:
  "hex_char 0 = CHR ''0''" "hex_char (Suc 0) = CHR ''1''" "hex_char 2 = CHR ''2''"
  "hex_char 3 = CHR ''3''" "hex_char 4 = CHR ''4''" "hex_char 5 = CHR ''5''"
  "hex_char 6 = CHR ''6''" "hex_char 7 = CHR ''7''" "hex_char 8 = CHR ''8''"
  "hex_char 9 = CHR ''9''" "hex_char 10 = CHR ''A''" "hex_char 11 = CHR ''B''"
  "hex_char 12 = CHR ''C''" "hex_char 13 = CHR ''D''" "hex_char 14 = CHR ''E''"
  "hex_char 15 = CHR ''F''"
  by (simp_all add: hex_char_def char_of_eq_iff)

lemmas checksum_eval =
  calculate_checksum_def encode_def encode_char_def code_point_def crc16_def crc_byte_unfold
  crc_shift_def format_04X_def hex_char_eval

text \<open>
  C5. The checksum of a string is the CRC-16/CCITT-FALSE register (polynomial 0x1021,
  initial value 0xFFFF, bytes entering at the top bit, no final XOR) after the string's
  bytes, written as exactly four upper-case hexadecimal digits that read back as the
  register's value (so short values are padded with zeros); the checksum of
  \<open>123456789\<close> is \<open>29B1\<close>.
\<close>

theorem checksum_crc16_ccitt_false:
  "calculate_checksum ''123456789'' = ''29B1''
   \<and> length (calculate_checksum s) = 4
   \<and> list_all is_upper_hex (calculate_checksum s)
   \<and> hex_value (calculate_checksum s) = unat (crc16 (encode s))
   \<and> crc16 [] = 0xFFFF
   \<and> crc16 (bs @ [b]) = (crc_shift ^^ 8) (crc16 bs XOR push_bit 8 (ucast b))
   \<and> crc_shift r = (if bit r 15 then push_bit 1 r XOR 0x1021 else push_bit 1 r)"
proof -
  have "calculate_checksum ''123456789'' = ''29B1''" by (simp add: checksum_eval)
  moreover have "length (calculate_checksum s) = 4"
    by (simp add: calculate_checksum_def format_04X_def)
  moreover have "list_all is_upper_hex (calculate_checksum s)"
    unfolding calculate_checksum_def by (rule format_04X_upper_hex)
  moreover have "hex_value (calculate_checksum s) = unat (crc16 (encode s))"
    unfolding calculate_checksum_def by (rule hex_value_format_04X)
  moreover have "crc16 [] = 0xFFFF" by (simp add: crc16_def)
  moreover have "crc16 (bs @ [b]) = (crc_shift ^^ 8) (crc16 bs XOR push_bit 8 (ucast b))"
    by (simp add: crc16_def crc_byte_def)
  moreover have "crc_shift r = (if bit r 15 then push_bit 1 r XOR 0x1021 else push_bit 1 r)"
    by (rule crc_shift_def)
  ultimately show ?thesis by blast
qed

section \<open>The scans and the fields they decode\<close>

lemma parse_loop_step:
  "parse_loop data pos d =
     (case read_field data pos of
        None \<Rightarrow> Some d
      | Some f \<Rightarrow> parse_loop data (pos + 4 + fst (snd f)) (store d f))"
  by (subst parse_loop.simps) (simp add: read_field_def store_def Let_def split: option.splits)

lemma parse_loop_decoded:
  "stops_within n data pos \<Longrightarrow> parse_loop data pos d = Some (foldl store d (decoded n data pos))"
proof (induction n arbitrary: pos d)
  case 0
  then show ?case by (simp add: stops_within_def)
next
  case (Suc n)
  show ?case
  proof (cases "read_field data pos")
    case None
    then show ?thesis by (subst parse_loop_step) simp
  next
    case (Some f)
    obtain t l v where f: "f = (t, l, v)" by (cases f)
    from Suc.prems Some f have "stops_within n data (pos + 4 + l)"
      by (simp add: stops_within_def)
    from Suc.IH [OF this] Some f show ?thesis
      by (subst parse_loop_step) simp
  qed
qed

lemma parse_loop_stops:
  assumes "parse_loop data pos d = Some y"
  shows "\<exists>n. stops_within n data pos"
proof (rule parse_loop.raw_induct
    [where P = "\<lambda>data pos d y. \<exists>n. stops_within n data pos", OF _ assms])
  fix loop :: "string \<Rightarrow> int \<Rightarrow> document \<Rightarrow> document option" and data pos d y
  assume IH: "\<And>data pos d y. loop data pos d = Some y \<Longrightarrow> \<exists>n. stops_within n data pos"
  assume body: "(if pos < int (length data) then
        if pos + 4 > int (length data) then Some d
        else
          let t = py_slice data pos (pos + 2) in
          case py_int (py_slice data (pos + 2) (pos + 4)) of
            None \<Rightarrow> Some d
          | Some l \<Rightarrow>
              let v = py_slice data (pos + 4) (pos + 4 + l) in
              loop data (pos + 4 + l)
                (d(t \<mapsto> \<lparr>tag = t, name = tag_name t, len = l, val = v\<rparr>))
      else Some d) = Some y"
  show "\<exists>n. stops_within n data pos"
  proof (cases "read_field data pos")
    case None
    then have "stops_within 1 data pos" by (simp add: stops_within_def)
    then show ?thesis ..
  next
    case (Some f)
    obtain t l v where f: "f = (t, l, v)" by (cases f)
    from Some f body have "loop data (pos + 4 + l) (store d f) = Some y"
      by (auto simp: read_field_def store_def Let_def split: if_splits option.splits)
    from IH [OF this] obtain n where "stops_within n data (pos + 4 + l)" ..
    with Some f have "stops_within (Suc n) data pos" by (simp add: stops_within_def)
    then show ?thesis ..
  qed
qed

lemma decoded_negative_length: "decoded n ''00-4'' 0 = replicate n (''00'', - 4, [])"
proof (induction n)
  case 0
  show ?case by simp
next
  case (Suc n)
  have "read_field ''00-4'' 0 = Some (''00'', - 4, [])" by code_simp
  with Suc show ?case by simp
qed

text \<open>
  C3 (the code at the failing inputs). The length field \<open>+1\<close> is not two decimal
  digits, yet the loop does not stop there: it decodes a field of length 1. On \<open>00-4\<close>
  the length is \<open>-4\<close>, the cursor moves by \<open>4 + (-4) = 0\<close>, and the loop never ends, so
  the parser never returns.
\<close>

theorem parse_signed_length_field:
  "Option.bind (QRISParser ''00+1A'') (\<lambda>p. p_data p ''00'')
     = Some \<lparr>tag = ''00'', name = ''Payload Format Indicator'', len = 1, val = ''A''\<rparr>
   \<and> py_int ''-4'' = Some (- 4)
   \<and> parse_loop ''00-4'' 0 Map.empty = None
   \<and> QRISParser ''00-4'' = None"
proof -
  have a: "Option.bind (QRISParser ''00+1A'') (\<lambda>p. p_data p ''00'')
     = Some \<lparr>tag = ''00'', name = ''Payload Format Indicator'', len = 1, val = ''A''\<rparr>"
    by code_simp
  have b: "py_int ''-4'' = Some (- 4)" by code_simp
  have c: "parse_loop ''00-4'' 0 Map.empty = None"
  proof (cases "parse_loop ''00-4'' 0 Map.empty")
    case (Some y)
    from parse_loop_stops [OF this] show ?thesis
      by (simp add: stops_within_def decoded_negative_length)
  qed simp
  have "py_strip ''00-4'' = ''00-4''" by code_simp
  with c have "QRISParser ''00-4'' = None" by (simp add: QRISParser_def)
  with a b c show ?thesis by blast
qed

section \<open>The builder (4.4)\<close>


lemma build_loop_step:
  "build_loop data mods pos result =
     (case read_field data pos of
        None \<Rightarrow> Some (Inr result)
      | Some f \<Rightarrow>
          if fst f = ''63'' then build_loop data mods (pos + 4 + fst (snd f)) result
          else if too_long_field (substituted mods f) then Some (Inl (report (substituted mods f)))
          else build_loop data mods (pos + 4 + fst (snd f)) (result @ [wire (substituted mods f)]))"
  by (subst build_loop.simps)
    (simp add: read_field_def Let_def substituted_def too_long_field_def report_def wire_def
      split: option.splits)

lemma build_loop_overlong:
  "find (overlong mods) (decoded n data pos) = Some f \<Longrightarrow>
   build_loop data mods pos result = Some (Inl (report (substituted mods f)))"
proof (induction n arbitrary: pos result)
  case 0
  then show ?case by simp
next
  case (Suc n)
  then obtain g where g: "read_field data pos = Some g"
    by (cases "read_field data pos") auto
  obtain t l v where tlv: "g = (t, l, v)" by (cases g)
  show ?case
  proof (cases "overlong mods g")
    case True
    with Suc.prems g tlv have "f = g" by simp
    with True g show ?thesis
      by (subst build_loop_step) (simp add: overlong_def)
  next
    case False
    with Suc.prems g tlv have "find (overlong mods) (decoded n data (pos + 4 + l)) = Some f"
      by simp
    from Suc.IH [OF this] False g tlv show ?thesis
      by (subst build_loop_step) (auto simp: overlong_def)
  qed
qed

lemma build_loop_emitted:
  "stops_within n data pos \<Longrightarrow> find (overlong mods) (decoded n data pos) = None \<Longrightarrow>
   build_loop data mods pos result = Some (Inr (result @ emitted mods (decoded n data pos)))"
proof (induction n arbitrary: pos result)
  case 0
  then show ?case by (simp add: stops_within_def)
next
  case (Suc n)
  show ?case
  proof (cases "read_field data pos")
    case None
    then show ?thesis by (subst build_loop_step) (simp add: emitted_def)
  next
    case (Some g)
    obtain t l v where tlv: "g = (t, l, v)" by (cases g)
    from Suc.prems Some tlv have a: "stops_within n data (pos + 4 + l)"
      and b: "find (overlong mods) (decoded n data (pos + 4 + l)) = None"
      and c: "\<not> overlong mods g"
      by (auto simp: stops_within_def split: if_splits)
    from Suc.IH [OF a b] c Some tlv show ?thesis
      by (subst build_loop_step) (auto simp: overlong_def emitted_def)
  qed
qed

lemma build_loop_ends:
  assumes "build_loop data mods pos result = Some y"
  shows "\<exists>n. find (overlong mods) (decoded n data pos) \<noteq> None \<or> stops_within n data pos"
proof (rule build_loop.raw_induct
    [where P = "\<lambda>data mods pos result y.
        \<exists>n. find (overlong mods) (decoded n data pos) \<noteq> None \<or> stops_within n data pos",
      OF _ assms])
  fix loop :: "string \<Rightarrow> (string \<rightharpoonup> string) \<Rightarrow> int \<Rightarrow> string list \<Rightarrow> (error + string list) option"
    and data mods pos result y
  assume IH: "\<And>data mods pos result y. loop data mods pos result = Some y \<Longrightarrow>
      \<exists>n. find (overlong mods) (decoded n data pos) \<noteq> None \<or> stops_within n data pos"
  assume body: "(if pos < int (length data) then
        if pos + 4 > int (length data) then Some (Inr result)
        else
          let t = py_slice data pos (pos + 2) in
          case py_int (py_slice data (pos + 2) (pos + 4)) of
            None \<Rightarrow> Some (Inr result)
          | Some l \<Rightarrow>
              let v = py_slice data (pos + 4) (pos + 4 + l) in
              if t = ''63'' then loop data mods (pos + 4 + l) result
              else
                let v = (case mods t of Some m \<Rightarrow> m | None \<Rightarrow> v);
                    l = (case mods t of Some m \<Rightarrow> int (length m) | None \<Rightarrow> l)
                in if l > max_len t then Some (Inl (too_long t l (max_len t)))
                   else
                     case py_int (py_slice data (pos + 2) (pos + 4)) of
                       None \<Rightarrow> Some (Inl (InvalidLiteral (py_slice data (pos + 2) (pos + 4))))
                     | Some adv \<Rightarrow>
                         loop data mods (pos + 4 + adv) (result @ [t @ fmt_02d l @ v])
      else Some (Inr result)) = Some y"
  show "\<exists>n. find (overlong mods) (decoded n data pos) \<noteq> None \<or> stops_within n data pos"
  proof (cases "read_field data pos")
    case None
    then have "stops_within 1 data pos" by (simp add: stops_within_def)
    then show ?thesis by blast
  next
    case (Some g)
    obtain t l v where tlv: "g = (t, l, v)" by (cases g)
    show ?thesis
    proof (cases "overlong mods g")
      case True
      with Some tlv have "find (overlong mods) (decoded 1 data pos) \<noteq> None" by simp
      then show ?thesis by blast
    next
      case False
      with Some tlv body have "\<exists>r. loop data mods (pos + 4 + l) r = Some y"
        by (auto simp: read_field_def Let_def overlong_def too_long_field_def substituted_def
            split: if_splits option.splits)
      then obtain r where "loop data mods (pos + 4 + l) r = Some y" ..
      from IH [OF this] obtain n where
        "find (overlong mods) (decoded n data (pos + 4 + l)) \<noteq> None \<or> stops_within n data (pos + 4 + l)" ..
      with Some tlv False
      have "find (overlong mods) (decoded (Suc n) data pos) \<noteq> None \<or> stops_within (Suc n) data pos"
        by (simp add: stops_within_def)
      then show ?thesis by blast
    qed
  qed
qed


lemma length_py_slice_two: "length (py_slice s a (a + 2)) \<le> 2"
  by (auto simp: py_slice_def py_index_def Let_def)

lemma digit_val_bounds: "is_digit c \<Longrightarrow> 0 \<le> digit_val c \<and> digit_val c \<le> 9"
  by (auto simp: is_digit_def digit_val_def)

lemma int_unsigned_bounds:
  "length s \<le> 2 \<Longrightarrow> int_unsigned s = Some l \<Longrightarrow> 0 \<le> l \<and> l \<le> 99"
proof -
  assume a: "length s \<le> 2" and b: "int_unsigned s = Some l"
  from a consider "s = []" | c where "s = [c]" | c d where "s = [c, d]"
    by (cases s; cases "tl s"; cases "tl (tl s)") auto
  then show ?thesis
  proof cases
    case 1
    with b show ?thesis by (simp add: int_unsigned_def)
  next
    case 2
    with b digit_val_bounds [of c] show ?thesis
      by (auto simp: int_unsigned_def split: if_splits)
  next
    case 3
    with b digit_val_bounds [of c] digit_val_bounds [of d] show ?thesis
      by (auto simp: int_unsigned_def split: if_splits)
  qed
qed

lemma length_strip_int: "length (rev (dropWhile P (rev (dropWhile P s)))) \<le> length s"
proof -
  have "length (dropWhile P (rev (dropWhile P s))) \<le> length (rev (dropWhile P s))"
    by (rule length_dropWhile_le)
  also have "\<dots> \<le> length s" by (simp add: length_dropWhile_le)
  finally show ?thesis by simp
qed

lemma py_int_bounds:
  assumes "length s \<le> 2" and "py_int s = Some l"
  shows "- 9 \<le> l \<and> l \<le> 99"
proof -
  define u where "u = rev (dropWhile is_int_space (rev (dropWhile is_int_space s)))"
  have lu: "length u \<le> 2"
    unfolding u_def using length_strip_int [of is_int_space s] assms(1) by simp
  show ?thesis
  proof (cases u)
    case Nil
    with assms(2) show ?thesis by (simp add: py_int_def u_def [symmetric])
  next
    case (Cons c cs)
    with lu have lcs: "length cs \<le> 2" and lcs1: "length cs \<le> 1" by simp_all
    consider (plus) "c = CHR ''+''" | (minus) "c \<noteq> CHR ''+''" "c = CHR ''-''"
      | (none) "c \<noteq> CHR ''+''" "c \<noteq> CHR ''-''" by blast
    then show ?thesis
    proof cases
      case plus
      with assms(2) Cons have "int_unsigned cs = Some l"
        by (simp add: py_int_def u_def [symmetric])
      from int_unsigned_bounds [OF lcs this] show ?thesis by simp
    next
      case minus
      with assms(2) Cons obtain k where k: "int_unsigned cs = Some k" "l = - k"
        by (auto simp: py_int_def u_def [symmetric])
      from lcs1 k(1) have "0 \<le> k \<and> k \<le> 9"
        using digit_val_bounds
        by (cases cs) (auto simp: int_unsigned_def split: if_splits)
      with k show ?thesis by simp
    next
      case none
      with assms(2) Cons have "int_unsigned u = Some l"
        by (simp add: py_int_def u_def [symmetric])
      from int_unsigned_bounds [OF lu this] show ?thesis by simp
    qed
  qed
qed

lemma read_field_bounds:
  "read_field data pos = Some (t, l, v) \<Longrightarrow> - 9 \<le> l \<and> l \<le> 99"
proof -
  assume "read_field data pos = Some (t, l, v)"
  then have "py_int (py_slice data (pos + 2) (pos + 4)) = Some l"
    by (auto simp: read_field_def split: if_splits option.splits)
  moreover have "length (py_slice data (pos + 2) (pos + 4)) \<le> 2"
    using length_py_slice_two [of data "pos + 2"] by (simp add: add.commute add.left_commute)
  ultimately show ?thesis by (rule py_int_bounds [rotated])
qed

lemma decoded_bounds:
  "(t, l, v) \<in> set (decoded n data pos) \<Longrightarrow> - 9 \<le> l \<and> l \<le> 99"
proof (induction n arbitrary: pos)
  case 0
  then show ?case by simp
next
  case (Suc n)
  then show ?case
    by (cases "read_field data pos") (auto dest: read_field_bounds)
qed


lemma build_loop_result:
  assumes "build_loop data mods pos result = Some y"
  shows "\<exists>n. (\<exists>f. find (overlong mods) (decoded n data pos) = Some f
                 \<and> y = Inl (report (substituted mods f)))
           \<or> (stops_within n data pos \<and> find (overlong mods) (decoded n data pos) = None
                 \<and> y = Inr (result @ emitted mods (decoded n data pos)))"
proof -
  from build_loop_ends [OF assms] obtain n where
    n: "find (overlong mods) (decoded n data pos) \<noteq> None \<or> stops_within n data pos" ..
  show ?thesis
  proof (cases "find (overlong mods) (decoded n data pos)")
    case None
    with n have st: "stops_within n data pos" by simp
    from build_loop_emitted [OF st None, of result] assms
    have "y = Inr (result @ emitted mods (decoded n data pos))" by simp
    with st None show ?thesis by blast
  next
    case (Some f)
    from build_loop_overlong [OF Some, of result] assms
    have "y = Inl (report (substituted mods f))" by simp
    with Some show ?thesis by blast
  qed
qed

lemma build_Inl: "build e = Some (Inl err) \<longleftrightarrow> build_loop (e_raw e) (modifications e) 0 [] = Some (Inl err)"
  by (auto simp: build_def Let_def split: option.splits sum.splits)

lemma build_Inr:
  "build e = Some (Inr out) \<longleftrightarrow>
   (\<exists>r. build_loop (e_raw e) (modifications e) 0 [] = Some (Inr r) \<and> out = assemble r)"
  by (auto simp: build_def assemble_def Let_def split: option.splits sum.splits)

lemma decoded_stable:
  "stops_within n data pos \<Longrightarrow> decoded (n + k) data pos = decoded n data pos"
proof (induction n arbitrary: pos)
  case 0
  then show ?case by (simp add: stops_within_def)
next
  case (Suc n)
  show ?case
  proof (cases "read_field data pos")
    case None
    then show ?thesis by simp
  next
    case (Some g)
    obtain t l v where tlv: "g = (t, l, v)" by (cases g)
    with Suc.prems Some have "stops_within n data (pos + 4 + l)" by (simp add: stops_within_def)
    from Suc.IH [OF this] Some tlv show ?thesis by simp
  qed
qed

lemma find_app:
  "find P (xs @ ys) = (case find P xs of None \<Rightarrow> find P ys | Some x \<Rightarrow> Some x)"
  by (induction xs) auto

lemma QRISEditor_fields:
  "QRISEditor s = Some e \<Longrightarrow> e_raw e = py_strip s \<and> modifications e = Map.empty"
  by (auto simp: QRISEditor_def Let_def)

lemma set_merchant_name_fields:
  "n \<noteq> [] \<Longrightarrow> e_raw (set_merchant_name e n) = e_raw e
     \<and> modifications (set_merchant_name e n) = (modifications e)(''59'' \<mapsto> n)"
  by (simp add: set_merchant_name_def)

lemma nat_str_length: "n < 100 \<Longrightarrow> length (nat_str n) = (if n < 10 then 1 else 2)"
  by (subst nat_str.simps, subst nat_str.simps) auto

lemma fmt_02d_length: "- 9 \<le> l \<Longrightarrow> l \<le> 99 \<Longrightarrow> length (fmt_02d l) = 2"
proof -
  assume a: "- 9 \<le> l" and b: "l \<le> 99"
  show ?thesis
  proof (cases "l < 0")
    case True
    with a have "nat (- l) < 10" by simp
    with True show ?thesis by (simp add: fmt_02d_def nat_str_length)
  next
    case False
    with b have "nat l < 100" by simp
    with False show ?thesis by (simp add: fmt_02d_def nat_str_length)
  qed
qed

lemma digit_char_digit: "d < 10 \<Longrightarrow> is_digit (digit_char d) \<and> digit_val (digit_char d) = int d"
  by (simp add: is_digit_def digit_val_def digit_char_def code_point_def)

lemma dec_value_snoc: "dec_value (s @ [c]) = 10 * dec_value s + digit_val c"
  by (simp add: dec_value_def)

lemma nat_str_numeral: "list_all is_digit (nat_str n) \<and> dec_value (nat_str n) = int n"
proof (induction n rule: nat_str.induct)
  case (1 n)
  show ?case
  proof (cases "n < 10")
    case True
    then have "nat_str n = [digit_char n]" by (subst nat_str.simps) simp
    with True digit_char_digit [of n] show ?thesis by (simp add: dec_value_def)
  next
    case False
    then have e: "nat_str n = nat_str (n div 10) @ [digit_char (n mod 10)]"
      by (subst nat_str.simps) simp
    have "n mod 10 < 10" by simp
    from digit_char_digit [OF this] 1 [OF False] show ?thesis
      by (simp add: e dec_value_snoc) presburger
  qed
qed

lemma nat_str_leading: "0 < n \<Longrightarrow> nat_str n \<noteq> [] \<and> hd (nat_str n) \<noteq> CHR ''0''"
proof (induction n rule: nat_str.induct)
  case (1 n)
  have z: "digit_val CHR ''0'' = 0" by (simp add: digit_val_def code_point_def)
  show ?case
  proof (cases "n < 10")
    case True
    then have e: "nat_str n = [digit_char n]" by (subst nat_str.simps) simp
    from digit_char_digit [OF True] 1(2) z have "digit_char n \<noteq> CHR ''0''" by auto
    with e show ?thesis by simp
  next
    case False
    then have e: "nat_str n = nat_str (n div 10) @ [digit_char (n mod 10)]"
      by (subst nat_str.simps) simp
    from False have "0 < n div 10" by simp
    from 1(1) [OF False this] show ?thesis by (simp add: e)
  qed
qed

lemma edited_name:
  "edited raw n [] [] = Option.bind (QRISEditor raw) (\<lambda>e. build (set_merchant_name e n))"
  by (simp add: edited_def set_merchant_name_def split: option.splits)

text \<open>
  C2 (counterexample). With no field 59 in the payload a 26-character merchant name is
  never looked at, and \<open>build\<close> returns a payload; with an overlong field before field 59
  the failure reports that field, here tag 60 with length 16 and maximum 15.
\<close>

theorem build_long_name_not_reported:
  "edited ''000201'' ''ABCDEFGHIJKLMNOPQRSTUVWXYZ'' [] [] = Some (Inr ''0002016304AAE6'')
   \<and> edited ''60160123456789ABCDEF5902AB'' ''ABCDEFGHIJKLMNOPQRSTUVWXYZ'' [] []
       = Some (Inl (ValueError ''Tag 60 value terlalu panjang (16 karakter, max 15)''))"
proof
  let ?n = "''ABCDEFGHIJKLMNOPQRSTUVWXYZ''"
  have "map_option e_raw (QRISEditor ''000201'') = Some ''000201''" by code_simp
  then obtain e0 where e0: "QRISEditor ''000201'' = Some e0" and raw: "e_raw e0 = ''000201''"
    by auto
  define e where "e = set_merchant_name e0 ?n"
  from QRISEditor_fields [OF e0] raw
  have er: "e_raw e = ''000201''" and em: "modifications e = [''59'' \<mapsto> ?n]"
    by (simp_all add: e_def set_merchant_name_def)
  have d: "decoded 2 ''000201'' 0 = [(''00'', 2, ''01'')]" by code_simp
  then have st: "stops_within 2 ''000201'' 0" by (simp add: stops_within_def)
  have nf: "find (overlong [''59'' \<mapsto> ?n]) (decoded 2 ''000201'' 0) = None"
    unfolding d by (simp add: overlong_def substituted_def too_long_field_def max_len_def)
  have em': "emitted [''59'' \<mapsto> ?n] (decoded 2 ''000201'' 0) = [''000201'']"
    unfolding d by (simp add: emitted_def substituted_def wire_def) code_simp
  from build_loop_emitted [OF st nf, of "[]"]
  have "build e = Some (Inr (assemble [''000201'']))" by (simp add: build_Inr er em em')
  also have "assemble [''000201''] = ''0002016304AAE6''"
    by (simp add: assemble_def checksum_eval)
  finally show "edited ''000201'' ?n [] [] = Some (Inr ''0002016304AAE6'')"
    using e0 by (simp add: edited_name e_def)
next
  let ?n = "''ABCDEFGHIJKLMNOPQRSTUVWXYZ''"
  let ?r = "''60160123456789ABCDEF5902AB''"
  have "map_option e_raw (QRISEditor ?r) = Some ?r" by code_simp
  then obtain e0 where e0: "QRISEditor ?r = Some e0" and raw: "e_raw e0 = ?r" by auto
  define e where "e = set_merchant_name e0 ?n"
  from QRISEditor_fields [OF e0] raw
  have er: "e_raw e = ?r" and em: "modifications e = [''59'' \<mapsto> ?n]"
    by (simp_all add: e_def set_merchant_name_def)
  have d: "decoded 2 ?r 0 = [(''60'', 16, ''0123456789ABCDEF''), (''59'', 2, ''AB'')]"
    by code_simp
  have f: "find (overlong [''59'' \<mapsto> ?n]) (decoded 2 ?r 0)
      = Some (''60'', 16, ''0123456789ABCDEF'')"
    unfolding d by (simp add: overlong_def substituted_def too_long_field_def max_len_def)
  have m: "too_long ''60'' 16 15 = ValueError ''Tag 60 value terlalu panjang (16 karakter, max 15)''"
    by code_simp
  from build_loop_overlong [OF f, of "[]"]
  have "build e = Some (Inl (ValueError ''Tag 60 value terlalu panjang (16 karakter, max 15)''))"
    by (simp add: build_Inl er em report_def substituted_def max_len_def m)
  then show "edited ?r ?n [] []
      = Some (Inl (ValueError ''Tag 60 value terlalu panjang (16 karakter, max 15)''))"
    using e0 by (simp add: edited_name e_def)
qed

text \<open>
  C2 (amended). \<open>build\<close> raises its length-violation \<open>ValueError\<close>, and so produces no
  payload, exactly when the scan of the raw payload decodes a field other than the checksum
  field 63 (which \<open>build\<close> skips) that is overlong: after override substitution, with the
  length recomputed as the override's character count, the length exceeds the maximum of
  the tag (25 for 59, 15 for 60, 5 for 61, 99 otherwise). Whenever it is raised, the
  message is \<open>Tag <tag> value terlalu panjang (<length> karakter, max <max>)\<close> for the first
  such field, with its tag, its length after substitution and the maximum of its tag, both
  numbers written in decimal digits without a leading zero. In particular, when the scan decodes a field 59 and
  no field before it is overlong, a 26-character merchant name makes \<open>build\<close> fail with
  tag 59, length 26, maximum 25.
\<close>

theorem build_length_violation:
  "((\<exists>msg. build e = Some (Inl (ValueError msg))) \<longleftrightarrow>
        (\<exists>n. \<exists>f \<in> set (decoded n (e_raw e) 0). overlong (modifications e) f))
   \<and> (\<forall>msg. build e = Some (Inl (ValueError msg)) \<longrightarrow>
        (\<exists>n t l v.
           map_option (substituted (modifications e))
             (find (overlong (modifications e)) (decoded n (e_raw e) 0)) = Some (t, l, v)
           \<and> max_len t < l
           \<and> msg = ''Tag '' @ t @ '' value terlalu panjang ('' @ int_str l
                   @ '' karakter, max '' @ int_str (max_len t) @ '')''))
   \<and> (\<forall>i. 0 \<le> i \<longrightarrow>
        list_all is_digit (int_str i) \<and> dec_value (int_str i) = i
        \<and> (0 < i \<longrightarrow> hd (int_str i) \<noteq> CHR ''0''))
   \<and> int_str 0 = ''0''
   \<and> (overlong (modifications e) (t', l', v') \<longleftrightarrow>
        t' \<noteq> ''63''
        \<and> max_len t' < (case modifications e t' of None \<Rightarrow> l' | Some m \<Rightarrow> int (length m)))
   \<and> substituted (modifications e) (t', l', v')
        = (case modifications e t' of None \<Rightarrow> (t', l', v') | Some m \<Rightarrow> (t', int (length m), m))
   \<and> max_len t'
        = (if t' = ''59'' then 25 else if t' = ''60'' then 15 else if t' = ''61'' then 5 else 99)
   \<and> (\<forall>n pre l v post m.
          modifications e ''59'' = Some m \<and> length m = 26
          \<and> decoded n (e_raw e) 0 = pre @ (''59'', l, v) # post
          \<and> (\<forall>f \<in> set pre. \<not> overlong (modifications e) f)
          \<longrightarrow> build e
                = Some (Inl (ValueError ''Tag 59 value terlalu panjang (26 karakter, max 25)'')))"
proof (intro conjI allI impI)
  let ?m = "modifications e" and ?d = "e_raw e"
  show "(\<exists>msg. build e = Some (Inl (ValueError msg)))
      \<longleftrightarrow> (\<exists>n. \<exists>f \<in> set (decoded n ?d 0). overlong ?m f)"
  proof
    assume "\<exists>msg. build e = Some (Inl (ValueError msg))"
    then obtain err where "build_loop ?d ?m 0 [] = Some (Inl err)" by (auto simp: build_Inl)
    from build_loop_result [OF this] obtain n f where
      "find (overlong ?m) (decoded n ?d 0) = Some f" by auto
    then have "f \<in> set (decoded n ?d 0) \<and> overlong ?m f" by (auto simp: find_Some_iff)
    then show "\<exists>n. \<exists>f \<in> set (decoded n ?d 0). overlong ?m f" by blast
  next
    assume "\<exists>n. \<exists>f \<in> set (decoded n ?d 0). overlong ?m f"
    then obtain n where "find (overlong ?m) (decoded n ?d 0) \<noteq> None"
      by (auto simp: find_None_iff)
    then obtain f where "find (overlong ?m) (decoded n ?d 0) = Some f" by auto
    from build_loop_overlong [OF this, of "[]"]
    show "\<exists>msg. build e = Some (Inl (ValueError msg))"
      by (cases "substituted ?m f") (simp add: build_Inl report_def too_long_def)
  qed
next
  fix msg
  let ?m = "modifications e" and ?d = "e_raw e"
  assume "build e = Some (Inl (ValueError msg))"
  then have "build_loop ?d ?m 0 [] = Some (Inl (ValueError msg))" by (simp add: build_Inl)
  from build_loop_result [OF this] obtain n f where
    f: "find (overlong ?m) (decoded n ?d 0) = Some f"
    and err: "ValueError msg = report (substituted ?m f)"
    by auto
  from f have P: "overlong ?m f" by (auto simp: find_Some_iff)
  obtain t l v where tlv: "substituted ?m f = (t, l, v)" by (cases "substituted ?m f")
  with P err f have "map_option (substituted ?m) (find (overlong ?m) (decoded n ?d 0))
        = Some (t, l, v)
      \<and> max_len t < l
      \<and> msg = ''Tag '' @ t @ '' value terlalu panjang ('' @ int_str l
              @ '' karakter, max '' @ int_str (max_len t) @ '')''"
    by (simp add: overlong_def too_long_field_def report_def too_long_def)
  then show "\<exists>n t l v. map_option (substituted ?m) (find (overlong ?m) (decoded n ?d 0))
        = Some (t, l, v)
      \<and> max_len t < l
      \<and> msg = ''Tag '' @ t @ '' value terlalu panjang ('' @ int_str l
              @ '' karakter, max '' @ int_str (max_len t) @ '')''"
    by blast
next
  fix i :: int
  assume "0 \<le> i"
  then have "int_str i = nat_str (nat i)" by (simp add: int_str_def)
  with nat_str_numeral [of "nat i"] \<open>0 \<le> i\<close>
  show "list_all is_digit (int_str i)" and "dec_value (int_str i) = i" by simp_all
  show "hd (int_str i) \<noteq> CHR ''0''" if "0 < i"
    using that nat_str_leading [of "nat i"] by (simp add: int_str_def)
next
  show "int_str 0 = ''0''" by code_simp
next
  show "overlong (modifications e) (t', l', v') \<longleftrightarrow>
        t' \<noteq> ''63''
        \<and> max_len t' < (case modifications e t' of None \<Rightarrow> l' | Some m \<Rightarrow> int (length m))"
    by (simp add: overlong_def substituted_def too_long_field_def split: option.splits)
  show "substituted (modifications e) (t', l', v')
        = (case modifications e t' of None \<Rightarrow> (t', l', v') | Some m \<Rightarrow> (t', int (length m), m))"
    by (simp add: substituted_def split: option.splits)
  show "max_len t'
        = (if t' = ''59'' then 25 else if t' = ''60'' then 15 else if t' = ''61'' then 5 else 99)"
    by (simp add: max_len_def)
next
  fix n pre l v post m
  let ?m = "modifications e" and ?d = "e_raw e"
  assume a: "?m ''59'' = Some m \<and> length m = 26
          \<and> decoded n ?d 0 = pre @ (''59'', l, v) # post
          \<and> (\<forall>f \<in> set pre. \<not> overlong ?m f)"
  then have "find (overlong ?m) pre = None" by (simp add: find_None_iff)
  moreover from a have s: "substituted ?m (''59'', l, v) = (''59'', 26, m)"
    by (simp add: substituted_def)
  then have "overlong ?m (''59'', l, v)"
    by (simp add: overlong_def too_long_field_def max_len_def)
  ultimately have "find (overlong ?m) (decoded n ?d 0) = Some (''59'', l, v)"
    using a by (simp add: find_app)
  moreover have "too_long ''59'' 26 25
      = ValueError ''Tag 59 value terlalu panjang (26 karakter, max 25)''"
    by code_simp
  ultimately show "build e
      = Some (Inl (ValueError ''Tag 59 value terlalu panjang (26 karakter, max 25)''))"
    using build_loop_overlong [of ?m n ?d 0 "(''59'', l, v)" "[]"] s
    by (simp add: build_Inl report_def max_len_def)
qed

theorem build_length_violation_witness:
  "Option.bind (QRISEditor sample_payload)
     (\<lambda>e. build (set_merchant_name e ''ABCDEFGHIJKLMNOPQRSTUVWXYZ''))
   = Some (Inl (ValueError ''Tag 59 value terlalu panjang (26 karakter, max 25)''))"
proof -
  have "map_option e_raw (QRISEditor sample_payload) = Some sample_payload" by code_simp
  then obtain e0 where e0: "QRISEditor sample_payload = Some e0" and raw: "e_raw e0 = sample_payload"
    by auto
  define e where "e = set_merchant_name e0 ''ABCDEFGHIJKLMNOPQRSTUVWXYZ''"
  from QRISEditor_fields [OF e0] raw
  have er: "e_raw e = sample_payload"
    and em: "modifications e = [''59'' \<mapsto> ''ABCDEFGHIJKLMNOPQRSTUVWXYZ'']"
    by (simp_all add: e_def set_merchant_name_def)
  have d: "decoded 10 sample_payload 0 =
      [(''00'', 2, ''01''), (''01'', 2, ''11''), (''52'', 4, ''5411''), (''53'', 3, ''360''),
       (''58'', 2, ''ID'')] @ (''59'', 8, ''TOKO ABC'') #
      [(''60'', 7, ''JAKARTA''), (''61'', 5, ''12345''), (''63'', 4, ''4AEE'')]"
    by code_simp
  have h2: "modifications e ''59'' = Some ''ABCDEFGHIJKLMNOPQRSTUVWXYZ''
      \<and> length ''ABCDEFGHIJKLMNOPQRSTUVWXYZ'' = 26
      \<and> decoded 10 (e_raw e) 0 =
          [(''00'', 2, ''01''), (''01'', 2, ''11''), (''52'', 4, ''5411''), (''53'', 3, ''360''),
           (''58'', 2, ''ID'')] @ (''59'', 8, ''TOKO ABC'') #
          [(''60'', 7, ''JAKARTA''), (''61'', 5, ''12345''), (''63'', 4, ''4AEE'')]
      \<and> (\<forall>f \<in> set [(''00'', 2, ''01''), (''01'', 2, ''11''), (''52'', 4, ''5411''),
            (''53'', 3, ''360''), (''58'', 2, ''ID'')].
            \<not> overlong (modifications e) f)"
    by (simp add: em er d overlong_def substituted_def too_long_field_def max_len_def)
  note r = build_length_violation [of e, THEN conjunct2, THEN conjunct2, THEN conjunct2,
      THEN conjunct2, THEN conjunct2, THEN conjunct2, THEN conjunct2, rule_format]
  from r [OF h2]
  have "build e = Some (Inl (ValueError ''Tag 59 value terlalu panjang (26 karakter, max 25)''))" .
  with e0 show ?thesis by (simp add: e_def)
qed

text \<open>
  C9. With no override, a decoded top-level field with tag 59, 60 or 61 whose declared
  length exceeds 25, 15 or 5 makes \<open>build\<close> fail with the length-violation error (for
  the first overlong field the scan meets) instead of emitting the field.
\<close>

theorem build_enforces_limits_without_overrides:
  assumes "modifications e = Map.empty"
    and "(t, l, v) \<in> set (decoded n (e_raw e) 0)"
    and "t = ''59'' \<and> l > 25 \<or> t = ''60'' \<and> l > 15 \<or> t = ''61'' \<and> l > 5"
  shows "\<exists>t' l'. build e = Some (Inl (too_long t' l' (max_len t'))) \<and> l' > max_len t'"
proof -
  from assms(1,3) have "overlong (modifications e) (t, l, v)"
    by (auto simp: overlong_def substituted_def too_long_field_def max_len_def)
  with assms(2) have "find (overlong (modifications e)) (decoded n (e_raw e) 0) \<noteq> None"
    by (auto simp: find_None_iff)
  then obtain f where f: "find (overlong (modifications e)) (decoded n (e_raw e) 0) = Some f"
    by auto
  then have o: "overlong (modifications e) f" by (auto simp: find_Some_iff)
  obtain t' l' v' where g: "substituted (modifications e) f = (t', l', v')"
    by (cases "substituted (modifications e) f")
  from build_loop_overlong [OF f, of "[]"] g o
  have "build e = Some (Inl (too_long t' l' (max_len t'))) \<and> l' > max_len t'"
    by (simp add: build_Inl report_def overlong_def too_long_field_def)
  then show ?thesis by blast
qed

theorem build_enforces_limits_without_overrides_witness:
  "Option.bind (QRISEditor overlong_payload) build
   = Some (Inl (ValueError ''Tag 59 value terlalu panjang (26 karakter, max 25)''))"
proof -
  have "map_option e_raw (QRISEditor overlong_payload) = Some overlong_payload" by code_simp
  then obtain e where e: "QRISEditor overlong_payload = Some e" and raw: "e_raw e = overlong_payload"
    by auto
  from QRISEditor_fields [OF e] have m: "modifications e = Map.empty" by simp
  have d: "decoded 3 overlong_payload 0 =
      [(''00'', 2, ''01''), (''59'', 26, ''ABCDEFGHIJKLMNOPQRSTUVWXYZ'')]"
    by code_simp
  have h: "(''59'', 26, ''ABCDEFGHIJKLMNOPQRSTUVWXYZ'') \<in> set (decoded 3 (e_raw e) 0)"
    by (simp add: raw d)
  from build_enforces_limits_without_overrides [OF m h]
  obtain t' l' where b: "build e = Some (Inl (too_long t' l' (max_len t')))" by auto
  have "Option.bind (QRISEditor overlong_payload) build \<noteq> None
      \<longrightarrow> Option.bind (QRISEditor overlong_payload) build
        = Some (Inl (ValueError ''Tag 59 value terlalu panjang (26 karakter, max 25)''))"
    by code_simp
  with e b show ?thesis by simp
qed

lemma decoded_prefix: "\<exists>rest. decoded (n + k) data pos = decoded n data pos @ rest"
proof (induction n arbitrary: pos)
  case 0
  show ?case by simp
next
  case (Suc n)
  show ?case
  proof (cases "read_field data pos")
    case None
    then show ?thesis by simp
  next
    case (Some g)
    obtain t l v where tlv: "g = (t, l, v)" by (cases g)
    from Suc.IH [of "pos + 4 + l"] Some tlv show ?thesis by simp
  qed
qed

lemma build_outcome:
  assumes "build e = Some y"
  shows "\<exists>n. \<forall>k. outcome (modifications e) (decoded (n + k) (e_raw e) 0) y"
proof -
  let ?d = "e_raw e" and ?m = "modifications e"
  from assms obtain r where r: "build_loop ?d ?m 0 [] = Some r"
    and y: "y = (case r of Inl err \<Rightarrow> Inl err | Inr res \<Rightarrow> Inr (assemble res))"
    by (auto simp: build_def assemble_def Let_def split: option.splits sum.splits)
  from build_loop_result [OF r] obtain n where
    n: "(\<exists>f. find (overlong ?m) (decoded n ?d 0) = Some f \<and> r = Inl (report (substituted ?m f)))
      \<or> (stops_within n ?d 0 \<and> find (overlong ?m) (decoded n ?d 0) = None
          \<and> r = Inr ([] @ emitted ?m (decoded n ?d 0)))" ..
  have "outcome ?m (decoded (n + k) ?d 0) y" for k
    using n
  proof
    assume "\<exists>f. find (overlong ?m) (decoded n ?d 0) = Some f \<and> r = Inl (report (substituted ?m f))"
    then obtain f where f: "find (overlong ?m) (decoded n ?d 0) = Some f"
      and rf: "r = Inl (report (substituted ?m f))" by blast
    from decoded_prefix [of n k ?d 0] obtain rest where
      "decoded (n + k) ?d 0 = decoded n ?d 0 @ rest" ..
    with f have "find (overlong ?m) (decoded (n + k) ?d 0) = Some f" by (simp add: find_app)
    with rf y show ?thesis by (simp add: outcome_def)
  next
    assume a: "stops_within n ?d 0 \<and> find (overlong ?m) (decoded n ?d 0) = None
          \<and> r = Inr ([] @ emitted ?m (decoded n ?d 0))"
    then have "decoded (n + k) ?d 0 = decoded n ?d 0" by (simp add: decoded_stable)
    with a y show ?thesis by (simp add: outcome_def)
  qed
  then show ?thesis by blast
qed

text \<open>
  C10. Whatever the overrides, the fields the loop of \<open>build\<close> decodes are those of
  \<open>decoded n raw 0\<close>, which does not mention the overrides: the cursor moves by the
  length read from the raw payload. Two builds of one raw payload are both described by
  the same decoded fields: each either fails at its first overlong field or emits all of
  them (but the checksum field) in that order. An emitted field keeps its tag and differs
  from the decoded one only where the tag is overridden, by the override's text and its
  character count, and every emitted length takes two characters.
\<close>

theorem build_cursor_ignores_overrides:
  assumes "e_raw e1 = e_raw e2"
    and "build e1 = Some y1"
    and "build e2 = Some y2"
  shows "\<exists>n. outcome (modifications e1) (decoded n (e_raw e1) 0) y1
      \<and> outcome (modifications e2) (decoded n (e_raw e1) 0) y2
      \<and> (\<forall>f \<in> set (decoded n (e_raw e1) 0). \<forall>m.
            fst (substituted m f) = fst f
            \<and> (m (fst f) = None \<longrightarrow> substituted m f = f)
            \<and> (\<forall>x. m (fst f) = Some x \<longrightarrow> substituted m f = (fst f, int (length x), x)))
      \<and> (\<forall>f \<in> set (decoded n (e_raw e1) 0). \<forall>m.
            fst f \<noteq> ''63'' \<and> \<not> overlong m f \<longrightarrow>
            length (fmt_02d (fst (snd (substituted m f)))) = 2)"
proof -
  let ?d = "e_raw e1"
  from build_outcome [OF assms(2)] obtain n1 where
    n1: "\<forall>k. outcome (modifications e1) (decoded (n1 + k) ?d 0) y1" ..
  from build_outcome [OF assms(3)] assms(1) obtain n2 where
    n2: "\<forall>k. outcome (modifications e2) (decoded (n2 + k) ?d 0) y2" by auto
  define n where "n = n1 + n2"
  from n1 have a: "outcome (modifications e1) (decoded n ?d 0) y1"
    unfolding n_def by (rule spec)
  from n2 have "outcome (modifications e2) (decoded (n2 + n1) ?d 0) y2" by (rule spec)
  then have b: "outcome (modifications e2) (decoded n ?d 0) y2"
    by (simp add: n_def add.commute)
  have c: "\<forall>f \<in> set (decoded n ?d 0). \<forall>m.
            fst (substituted m f) = fst f
            \<and> (m (fst f) = None \<longrightarrow> substituted m f = f)
            \<and> (\<forall>x. m (fst f) = Some x \<longrightarrow> substituted m f = (fst f, int (length x), x))"
    by (auto simp: substituted_def split: option.splits)
  have d: "\<forall>f \<in> set (decoded n ?d 0). \<forall>m.
            fst f \<noteq> ''63'' \<and> \<not> overlong m f \<longrightarrow>
            length (fmt_02d (fst (snd (substituted m f)))) = 2"
  proof (intro ballI allI impI)
    fix f m
    assume f: "f \<in> set (decoded n ?d 0)" and o: "fst f \<noteq> ''63'' \<and> \<not> overlong m f"
    obtain t l v where tlv: "f = (t, l, v)" by (cases f)
    from f tlv have bd: "- 9 \<le> l \<and> l \<le> 99" using decoded_bounds by blast
    from o have "\<not> too_long_field (substituted m f)" by (auto simp: overlong_def)
    with tlv bd have "- 9 \<le> fst (snd (substituted m f)) \<and> fst (snd (substituted m f)) \<le> 99"
      by (auto simp: substituted_def too_long_field_def max_len_def split: option.splits if_splits)
    then show "length (fmt_02d (fst (snd (substituted m f)))) = 2" by (simp add: fmt_02d_length)
  qed
  show ?thesis by (rule exI [of _ n]) (intro conjI a b c d)
qed

theorem build_cursor_ignores_overrides_witness:
  "Option.bind (QRISEditor sample_payload) build
     = Some (Inr (assemble (emitted Map.empty (decoded 10 sample_payload 0))))
   \<and> Option.bind (QRISEditor sample_payload) (\<lambda>e. build (set_merchant_name e ''WARUNG''))
     = Some (Inr (assemble (emitted [''59'' \<mapsto> ''WARUNG''] (decoded 10 sample_payload 0))))"
proof -
  have "map_option e_raw (QRISEditor sample_payload) = Some sample_payload" by code_simp
  then obtain e1 where e1: "QRISEditor sample_payload = Some e1" and raw: "e_raw e1 = sample_payload"
    by auto
  define e2 where "e2 = set_merchant_name e1 ''WARUNG''"
  from QRISEditor_fields [OF e1] have m1: "modifications e1 = Map.empty" by simp
  then have m2: "modifications e2 = [''59'' \<mapsto> ''WARUNG'']" and r2: "e_raw e1 = e_raw e2"
    by (simp_all add: e2_def set_merchant_name_def)
  have st: "stops_within 10 sample_payload 0" by code_simp
  have f1: "find (overlong Map.empty) (decoded 10 sample_payload 0) = None" by code_simp
  have f2: "find (overlong [''59'' \<mapsto> ''WARUNG'']) (decoded 10 sample_payload 0) = None"
    by code_simp
  from build_loop_emitted [OF st f1, of "[]"]
  have b1: "build e1 = Some (Inr (assemble (emitted Map.empty (decoded 10 sample_payload 0))))"
    by (simp add: build_Inr raw m1)
  from build_loop_emitted [OF st f2, of "[]"]
  have b2: "build e2
      = Some (Inr (assemble (emitted [''59'' \<mapsto> ''WARUNG''] (decoded 10 sample_payload 0))))"
    using r2 by (simp add: build_Inr raw m2)
  from build_cursor_ignores_overrides [OF r2 b1 b2] obtain n where
    "outcome (modifications e1) (decoded n (e_raw e1) 0)
       (Inr (assemble (emitted Map.empty (decoded 10 sample_payload 0))))"
    by blast
  with e1 b1 b2 show ?thesis by (simp add: e2_def)
qed

section \<open>The parser (4.1) and the nested scans (4.2)\<close>

lemma store_lookup: "store d f t = (if fst f = t then Some (entry f) else d t)"
  by (cases f) (auto simp: store_def entry_def)

lemma foldl_store_lookup:
  "foldl store d fs t =
     (case find (\<lambda>f. fst f = t) (rev fs) of None \<Rightarrow> d t | Some f \<Rightarrow> Some (entry f))"
  by (induction fs rule: rev_induct) (simp_all add: store_lookup)

lemma QRISParser_result:
  assumes "QRISParser s = Some p"
  shows "p_raw p = py_strip s \<and> (\<exists>n. stops_within n (py_strip s) 0
           \<and> p_data p = foldl store Map.empty (decoded n (py_strip s) 0))"
proof -
  from assms obtain d where d: "parse_loop (py_strip s) 0 Map.empty = Some d"
    and p: "p = \<lparr>p_raw = py_strip s, p_data = d\<rparr>"
    by (auto simp: QRISParser_def Let_def)
  from parse_loop_stops [OF d] obtain n where n: "stops_within n (py_strip s) 0" ..
  from parse_loop_decoded [OF n, of Map.empty] d
  have "d = foldl store Map.empty (decoded n (py_strip s) 0)" by simp
  with p n show ?thesis by auto
qed

lemma length_decoded: "length (decoded n data pos) \<le> n"
proof (induction n arbitrary: pos)
  case 0
  show ?case by simp
next
  case (Suc n)
  show ?case
  proof (cases "read_field data pos")
    case None
    then show ?thesis by simp
  next
    case (Some f)
    obtain t l v where "f = (t, l, v)" by (cases f)
    with Some Suc [of "pos + 4 + l"] show ?thesis by simp
  qed
qed

lemma read_field_room: "read_field data pos = Some f \<Longrightarrow> pos + 4 \<le> int (length data)"
  by (simp add: read_field_def split: if_splits)

lemma decoded_advance:
  assumes "\<forall>f \<in> set (decoded n data pos). 0 \<le> fst (snd f)"
    and "length (decoded n data pos) = n" and "0 < n"
  shows "pos + 4 * int n \<le> int (length data)"
  using assms
proof (induction n arbitrary: pos)
  case 0
  then show ?case by simp
next
  case (Suc n)
  show ?case
  proof (cases "read_field data pos")
    case None
    with Suc.prems(2) show ?thesis by simp
  next
    case (Some f)
    obtain t l v where f: "f = (t, l, v)" by (cases f)
    from Some f Suc.prems(1) have l: "0 \<le> l" by simp
    show ?thesis
    proof (cases "n = 0")
      case True
      with read_field_room [OF Some] show ?thesis by simp
    next
      case False
      from Some f Suc.prems have "\<forall>f \<in> set (decoded n data (pos + 4 + l)). 0 \<le> fst (snd f)"
        and "length (decoded n data (pos + 4 + l)) = n" by simp_all
      from Suc.IH [OF this] False have "pos + 4 + l + 4 * int n \<le> int (length data)" by simp
      with l show ?thesis by simp
    qed
  qed
qed

lemma scan_stops_without_negative_length:
  assumes "\<forall>f \<in> set (decoded (Suc (length data)) data 0). 0 \<le> fst (snd f)"
  shows "stops_within (Suc (length data)) data 0"
proof (rule ccontr)
  assume "\<not> stops_within (Suc (length data)) data 0"
  with length_decoded [of "Suc (length data)" data 0]
  have "length (decoded (Suc (length data)) data 0) = Suc (length data)"
    by (simp add: stops_within_def)
  from decoded_advance [OF assms this] show False by simp
qed

lemma decoded_stuck:
  "read_field data pos = Some (t, - 4, v) \<Longrightarrow> decoded n data pos = replicate n (t, - 4, v)"
  by (induction n) simp_all

lemma parse_loop_stuck:
  assumes "read_field data pos = Some (t, - 4, v)"
  shows "parse_loop data pos d = None"
proof (cases "parse_loop data pos d")
  case None
  then show ?thesis .
next
  case (Some y)
  from parse_loop_stops [OF this] obtain n where "stops_within n data pos" ..
  with decoded_stuck [OF assms, of n] show ?thesis by (simp add: stops_within_def)
qed

lemma nmid_loop_step:
  "nmid_loop v pos =
     (case read_field v pos of
        None \<Rightarrow> Some []
      | Some f \<Rightarrow>
          if fst f = ''02'' then Some (snd (snd f)) else nmid_loop v (pos + 4 + fst (snd f)))"
  by (subst nmid_loop.simps) (simp add: read_field_def Let_def split: option.splits)

lemma acquiring_id_loop_step:
  "acquiring_id_loop v pos =
     (case read_field v pos of
        None \<Rightarrow> Some []
      | Some f \<Rightarrow>
          if fst f = ''01'' then Some (take 8 (snd (snd f)))
          else acquiring_id_loop v (pos + 4 + fst (snd f)))"
  by (subst acquiring_id_loop.simps)
    (simp add: read_field_def Let_def py_slice_def [of _ 0 8] py_index_def split: option.splits)

lemma terminal_id_loop_step:
  "terminal_id_loop v pos =
     (case read_field v pos of
        None \<Rightarrow> Some []
      | Some f \<Rightarrow>
          if fst f = ''07'' then Some (snd (snd f))
          else terminal_id_loop v (pos + 4 + fst (snd f)))"
  by (subst terminal_id_loop.simps) (simp add: read_field_def Let_def split: option.splits)

lemma nmid_loop_first:
  "find (\<lambda>f. fst f = ''02'') (decoded n v pos) = Some (t, l, w)
     \<Longrightarrow> nmid_loop v pos = Some w"
proof (induction n arbitrary: pos)
  case 0
  then show ?case by simp
next
  case (Suc n)
  show ?case
  proof (cases "read_field v pos")
    case None
    with Suc.prems show ?thesis by simp
  next
    case (Some g)
    obtain t' l' w' where g: "g = (t', l', w')" by (cases g)
    show ?thesis
    proof (cases "t' = ''02''")
      case True
      with Suc.prems Some g show ?thesis by (subst nmid_loop_step) simp
    next
      case False
      with Suc.prems Some g
      have "find (\<lambda>f. fst f = ''02'') (decoded n v (pos + 4 + l')) = Some (t, l, w)" by simp
      from Suc.IH [OF this] False Some g show ?thesis by (subst nmid_loop_step) simp
    qed
  qed
qed

lemma acquiring_id_loop_first:
  "find (\<lambda>f. fst f = ''01'') (decoded n v pos) = Some (t, l, w)
     \<Longrightarrow> acquiring_id_loop v pos = Some (take 8 w)"
proof (induction n arbitrary: pos)
  case 0
  then show ?case by simp
next
  case (Suc n)
  show ?case
  proof (cases "read_field v pos")
    case None
    with Suc.prems show ?thesis by simp
  next
    case (Some g)
    obtain t' l' w' where g: "g = (t', l', w')" by (cases g)
    show ?thesis
    proof (cases "t' = ''01''")
      case True
      with Suc.prems Some g show ?thesis by (subst acquiring_id_loop_step) simp
    next
      case False
      with Suc.prems Some g
      have "find (\<lambda>f. fst f = ''01'') (decoded n v (pos + 4 + l')) = Some (t, l, w)" by simp
      from Suc.IH [OF this] False Some g show ?thesis by (subst acquiring_id_loop_step) simp
    qed
  qed
qed

lemma terminal_id_loop_first:
  "find (\<lambda>f. fst f = ''07'') (decoded n v pos) = Some (t, l, w)
     \<Longrightarrow> terminal_id_loop v pos = Some w"
proof (induction n arbitrary: pos)
  case 0
  then show ?case by simp
next
  case (Suc n)
  show ?case
  proof (cases "read_field v pos")
    case None
    with Suc.prems show ?thesis by simp
  next
    case (Some g)
    obtain t' l' w' where g: "g = (t', l', w')" by (cases g)
    show ?thesis
    proof (cases "t' = ''07''")
      case True
      with Suc.prems Some g show ?thesis by (subst terminal_id_loop_step) simp
    next
      case False
      with Suc.prems Some g
      have "find (\<lambda>f. fst f = ''07'') (decoded n v (pos + 4 + l')) = Some (t, l, w)" by simp
      from Suc.IH [OF this] False Some g show ?thesis by (subst terminal_id_loop_step) simp
    qed
  qed
qed

lemma QRISParser_stops:
  assumes "stops_within n (py_strip s) 0"
  shows "QRISParser s
      = Some \<lparr>p_raw = py_strip s, p_data = foldl store Map.empty (decoded n (py_strip s) 0)\<rparr>"
  using parse_loop_decoded [OF assms, of Map.empty] by (simp add: QRISParser_def Let_def)

text \<open>
  C7 (counterexample). Inside the value of the composite tag 26 the sub-tag 01 occurs twice,
  with the values \<open>A\<close> and \<open>B\<close>; the nested scan of \<open>acquiring_id\<close> returns the first.
  And a payload can repeat a tag and yield no document at all: after the two fields with
  tag 00 the length \<open>-4\<close> keeps the cursor in place, and the parser never returns.
\<close>

theorem nested_scan_returns_first_occurrence:
  "Option.bind (QRISParser ''26100101A0101B'') acquiring_id = Some ''A''
   \<and> QRISParser ''0001A0001B00-4'' = None"
proof
  show "Option.bind (QRISParser ''26100101A0101B'') acquiring_id = Some ''A''" by code_simp
  let ?r = "''0001A0001B00-4''"
  have s: "py_strip ?r = ?r" by code_simp
  have r0: "read_field ?r 0 = Some (''00'', 1, ''A'')" by code_simp
  have r5: "read_field ?r 5 = Some (''00'', 1, ''B'')" by code_simp
  have r10: "read_field ?r 10 = Some (''00'', - 4, [])" by code_simp
  have "parse_loop ?r 0 d = parse_loop ?r 5 (store d (''00'', 1, ''A''))" for d
    by (subst parse_loop_step) (simp add: r0)
  moreover have "parse_loop ?r 5 d = parse_loop ?r 10 (store d (''00'', 1, ''B''))" for d
    by (subst parse_loop_step) (simp add: r5)
  ultimately have "parse_loop ?r 0 Map.empty = None"
    by (simp add: parse_loop_stuck [OF r10])
  then show "QRISParser ?r = None" by (simp add: QRISParser_def Let_def s)
qed

text \<open>
  C7 (amended). The parser returns a document exactly when its scan of the stripped input
  stops, which it does whenever no decoded length is negative. The document then maps
  every tag to the last field with that tag among the fields the scan decoded: when a tag
  occurs twice at the top level, the later length and value are kept, and the fields
  decoded after the repetition are recorded as well. Inside a composite value no document
  is built: the scans of \<open>nmid\<close>, \<open>acquiring_id\<close> and \<open>terminal_id\<close> over the container's
  value (tag 51, else 26; tag 26, else 51; tag 62) return at the first field whose sub-tag
  is 02, 01 and 07 respectively, with that field's value (for \<open>acquiring_id\<close> its first 8
  characters), whatever follows.
\<close>

theorem parser_keeps_last_nested_scans_first:
  "(\<forall>n. stops_within n (py_strip s) 0 \<longrightarrow>
      (\<exists>p. QRISParser s = Some p \<and> p_raw p = py_strip s
         \<and> (\<forall>t. p_data p t
                = map_option entry (find (\<lambda>f. fst f = t) (rev (decoded n (py_strip s) 0))))
         \<and> (\<forall>t pre l1 v1 mid l2 v2 post.
               decoded n (py_strip s) 0 = pre @ (t, l1, v1) # mid @ (t, l2, v2) # post
               \<and> t \<notin> fst ` set post
               \<longrightarrow> p_data p t = Some \<lparr>tag = t, name = tag_name t, len = l2, val = v2\<rparr>
                   \<and> (\<forall>f \<in> set post. p_data p (fst f) \<noteq> None))))
   \<and> ((\<exists>p. QRISParser s = Some p) \<longleftrightarrow> (\<exists>n. stops_within n (py_strip s) 0))
   \<and> ((\<forall>f \<in> set (decoded (Suc (length (py_strip s))) (py_strip s) 0). 0 \<le> fst (snd f))
        \<longrightarrow> stops_within (Suc (length (py_strip s))) (py_strip s) 0)
   \<and> (\<forall>n t l w. find (\<lambda>f. fst f = ''02'') (decoded n c 0) = Some (t, l, w)
        \<longrightarrow> nmid_loop c 0 = Some w)
   \<and> (\<forall>n t l w. find (\<lambda>f. fst f = ''01'') (decoded n c 0) = Some (t, l, w)
        \<longrightarrow> acquiring_id_loop c 0 = Some (take 8 w))
   \<and> (\<forall>n t l w. find (\<lambda>f. fst f = ''07'') (decoded n c 0) = Some (t, l, w)
        \<longrightarrow> terminal_id_loop c 0 = Some w)
   \<and> nmid q
       = nmid_loop (if get_value (p_data q) ''51'' = [] then get_value (p_data q) ''26''
                    else get_value (p_data q) ''51'') 0
   \<and> acquiring_id q
       = acquiring_id_loop (if get_value (p_data q) ''26'' = [] then get_value (p_data q) ''51''
                            else get_value (p_data q) ''26'') 0
   \<and> terminal_id q = terminal_id_loop (get_value (p_data q) ''62'') 0"
proof (intro conjI allI impI)
  fix n
  assume n: "stops_within n (py_strip s) 0"
  let ?fs = "decoded n (py_strip s) 0"
  define d where "d = foldl store Map.empty ?fs"
  have look: "d t = map_option entry (find (\<lambda>f. fst f = t) (rev ?fs))" for t
    by (simp add: d_def foldl_store_lookup split: option.splits)
  have dup: "d t = Some \<lparr>tag = t, name = tag_name t, len = l2, val = v2\<rparr>
                \<and> (\<forall>f \<in> set post. d (fst f) \<noteq> None)"
    if "?fs = pre @ (t, l1, v1) # mid @ (t, l2, v2) # post \<and> t \<notin> fst ` set post"
    for t pre l1 v1 mid l2 v2 post
  proof
    from that have "find (\<lambda>f. fst f = t) (rev post) = None"
      by (force simp: find_None_iff)
    with that show "d t = Some \<lparr>tag = t, name = tag_name t, len = l2, val = v2\<rparr>"
      by (simp add: look find_app entry_def)
    show "\<forall>f \<in> set post. d (fst f) \<noteq> None"
    proof
      fix f assume "f \<in> set post"
      with that have "f \<in> set (rev ?fs)" by simp
      then have "\<exists>g \<in> set (rev ?fs). fst g = fst f" by blast
      then have "find (\<lambda>g. fst g = fst f) (rev ?fs) \<noteq> None"
        unfolding find_None_iff by blast
      then show "d (fst f) \<noteq> None" by (simp add: look)
    qed
  qed
  let ?p = "\<lparr>p_raw = py_strip s, p_data = d\<rparr>"
  have a: "QRISParser s = Some ?p" unfolding d_def by (rule QRISParser_stops [OF n])
  have r: "p_raw ?p = py_strip s" by simp
  have b: "\<forall>t. p_data ?p t = map_option entry (find (\<lambda>f. fst f = t) (rev ?fs))"
    using look by simp
  have c: "\<forall>t pre l1 v1 mid l2 v2 post.
            ?fs = pre @ (t, l1, v1) # mid @ (t, l2, v2) # post \<and> t \<notin> fst ` set post
            \<longrightarrow> p_data ?p t = Some \<lparr>tag = t, name = tag_name t, len = l2, val = v2\<rparr>
                \<and> (\<forall>f \<in> set post. p_data ?p (fst f) \<noteq> None)"
  proof (intro allI impI)
    fix t pre l1 v1 mid l2 v2 post
    assume "?fs = pre @ (t, l1, v1) # mid @ (t, l2, v2) # post \<and> t \<notin> fst ` set post"
    from dup [OF this]
    show "p_data ?p t = Some \<lparr>tag = t, name = tag_name t, len = l2, val = v2\<rparr>
        \<and> (\<forall>f \<in> set post. p_data ?p (fst f) \<noteq> None)"
      by simp
  qed
  show "\<exists>p. QRISParser s = Some p \<and> p_raw p = py_strip s
         \<and> (\<forall>t. p_data p t = map_option entry (find (\<lambda>f. fst f = t) (rev ?fs)))
         \<and> (\<forall>t pre l1 v1 mid l2 v2 post.
               ?fs = pre @ (t, l1, v1) # mid @ (t, l2, v2) # post \<and> t \<notin> fst ` set post
               \<longrightarrow> p_data p t = Some \<lparr>tag = t, name = tag_name t, len = l2, val = v2\<rparr>
                   \<and> (\<forall>f \<in> set post. p_data p (fst f) \<noteq> None))"
    by (rule exI [of _ ?p]) (intro conjI a r b c)
next
  show "(\<exists>p. QRISParser s = Some p) \<longleftrightarrow> (\<exists>n. stops_within n (py_strip s) 0)"
  proof
    assume "\<exists>p. QRISParser s = Some p"
    then obtain p where "QRISParser s = Some p" ..
    from QRISParser_result [OF this] show "\<exists>n. stops_within n (py_strip s) 0" by blast
  next
    assume "\<exists>n. stops_within n (py_strip s) 0"
    then obtain n where "stops_within n (py_strip s) 0" ..
    from QRISParser_stops [OF this] show "\<exists>p. QRISParser s = Some p" by blast
  qed
next
  assume "\<forall>f \<in> set (decoded (Suc (length (py_strip s))) (py_strip s) 0). 0 \<le> fst (snd f)"
  then show "stops_within (Suc (length (py_strip s))) (py_strip s) 0"
    by (rule scan_stops_without_negative_length)
next
  fix n t l w
  assume "find (\<lambda>f. fst f = ''02'') (decoded n c 0) = Some (t, l, w)"
  then show "nmid_loop c 0 = Some w" by (rule nmid_loop_first)
next
  fix n t l w
  assume "find (\<lambda>f. fst f = ''01'') (decoded n c 0) = Some (t, l, w)"
  then show "acquiring_id_loop c 0 = Some (take 8 w)" by (rule acquiring_id_loop_first)
next
  fix n t l w
  assume "find (\<lambda>f. fst f = ''07'') (decoded n c 0) = Some (t, l, w)"
  then show "terminal_id_loop c 0 = Some w" by (rule terminal_id_loop_first)
next
  show "nmid q
       = nmid_loop (if get_value (p_data q) ''51'' = [] then get_value (p_data q) ''26''
                    else get_value (p_data q) ''51'') 0"
    by (simp add: nmid_def Let_def)
  show "acquiring_id q
       = acquiring_id_loop (if get_value (p_data q) ''26'' = [] then get_value (p_data q) ''51''
                            else get_value (p_data q) ''26'') 0"
    by (simp add: acquiring_id_def Let_def)
  show "terminal_id q = terminal_id_loop (get_value (p_data q) ''62'') 0"
    by (simp add: terminal_id_def)
qed

theorem parser_keeps_last_nested_scans_first_witness:
  "Option.bind (QRISParser ''0001A0001B5902XY'') (\<lambda>p. p_data p ''00'')
     = Some \<lparr>tag = ''00'', name = ''Payload Format Indicator'', len = 1, val = ''B''\<rparr>
   \<and> stops_within 17 ''0001A0001B5902XY'' 0
   \<and> nmid_loop ''0002XX0201P0201Q'' 0 = Some ''P''
   \<and> acquiring_id_loop ''0101A0101B'' 0 = Some ''A''
   \<and> terminal_id_loop ''0701S0701T'' 0 = Some ''S''"
proof -
  let ?s = "''0001A0001B5902XY''"
  note th = parser_keeps_last_nested_scans_first
  have s: "py_strip ?s = ?s" by code_simp
  have st: "stops_within 4 (py_strip ?s) 0" by code_simp
  have d: "decoded 4 (py_strip ?s) 0
      = [] @ (''00'', 1, ''A'') # [] @ (''00'', 1, ''B'') # [(''59'', 2, ''XY'')]
      \<and> ''00'' \<notin> fst ` set [(''59'', 2 :: int, ''XY'')]"
    by code_simp
  from th [of ?s, THEN conjunct1, rule_format, OF st]
  obtain p where p: "QRISParser ?s = Some p"
    and dup: "\<forall>t pre l1 v1 mid l2 v2 post.
               decoded 4 (py_strip ?s) 0 = pre @ (t, l1, v1) # mid @ (t, l2, v2) # post
               \<and> t \<notin> fst ` set post
               \<longrightarrow> p_data p t = Some \<lparr>tag = t, name = tag_name t, len = l2, val = v2\<rparr>
                   \<and> (\<forall>f \<in> set post. p_data p (fst f) \<noteq> None)"
    by blast
  from dup [rule_format, OF d]
  have "p_data p ''00'' = Some \<lparr>tag = ''00'', name = tag_name ''00'', len = 1, val = ''B''\<rparr>"
    by (rule conjunct1)
  moreover have "tag_name ''00'' = ''Payload Format Indicator''" by code_simp
  ultimately have a: "Option.bind (QRISParser ?s) (\<lambda>p. p_data p ''00'')
     = Some \<lparr>tag = ''00'', name = ''Payload Format Indicator'', len = 1, val = ''B''\<rparr>"
    using p by simp
  have "\<forall>f \<in> set (decoded (Suc (length (py_strip ?s))) (py_strip ?s) 0). 0 \<le> fst (snd f)"
    by code_simp
  from th [of ?s, THEN conjunct2, THEN conjunct2, THEN conjunct1, THEN mp, OF this]
  have "stops_within (Suc (length (py_strip ?s))) (py_strip ?s) 0" .
  moreover have "Suc (length (py_strip ?s)) = 17" by (simp add: s)
  ultimately have b: "stops_within 17 ?s 0" by (simp only: s)
  have "find (\<lambda>f. fst f = ''02'') (decoded 3 ''0002XX0201P0201Q'' 0) = Some (''02'', 1, ''P'')"
    by code_simp
  from th [where c = "''0002XX0201P0201Q''", THEN conjunct2, THEN conjunct2, THEN conjunct2,
      THEN conjunct1, rule_format, OF this]
  have c: "nmid_loop ''0002XX0201P0201Q'' 0 = Some ''P''" .
  have "find (\<lambda>f. fst f = ''01'') (decoded 2 ''0101A0101B'' 0) = Some (''01'', 1, ''A'')"
    by code_simp
  from th [where c = "''0101A0101B''", THEN conjunct2, THEN conjunct2, THEN conjunct2,
      THEN conjunct2, THEN conjunct1, rule_format, OF this]
  have e: "acquiring_id_loop ''0101A0101B'' 0 = Some ''A''" by simp
  have "find (\<lambda>f. fst f = ''07'') (decoded 2 ''0701S0701T'' 0) = Some (''07'', 1, ''S'')"
    by code_simp
  from th [where c = "''0701S0701T''", THEN conjunct2, THEN conjunct2, THEN conjunct2,
      THEN conjunct2, THEN conjunct2, THEN conjunct1, rule_format, OF this]
  have f: "terminal_id_loop ''0701S0701T'' 0 = Some ''S''" .
  from a b c e f show ?thesis by (intro conjI)
qed

section \<open>The composite accessors (4.2) and the summary (4.3)\<close>

lemma acquiring_id_loop_ends:
  assumes "acquiring_id_loop v pos = Some y"
  shows "\<exists>n. stops_within n v pos \<or> (\<exists>f \<in> set (decoded n v pos). fst f = ''01'')"
proof (rule acquiring_id_loop.raw_induct
    [where P = "\<lambda>v pos y. \<exists>n. stops_within n v pos \<or> (\<exists>f \<in> set (decoded n v pos). fst f = ''01'')",
      OF _ assms])
  fix loop :: "string \<Rightarrow> int \<Rightarrow> string option" and tag_value pos y
  assume IH: "\<And>v pos y. loop v pos = Some y \<Longrightarrow>
      \<exists>n. stops_within n v pos \<or> (\<exists>f \<in> set (decoded n v pos). fst f = ''01'')"
  assume body: "(if pos < int (length tag_value) then
        if pos + 4 > int (length tag_value) then Some []
        else
          let subtag = py_slice tag_value pos (pos + 2) in
          case py_int (py_slice tag_value (pos + 2) (pos + 4)) of
            None \<Rightarrow> Some []
          | Some sublength \<Rightarrow>
              let subvalue = py_slice tag_value (pos + 4) (pos + 4 + sublength) in
              if subtag = ''01''
              then Some (if length subvalue \<ge> 8 then py_slice subvalue 0 8 else subvalue)
              else loop tag_value (pos + 4 + sublength)
      else Some []) = Some y"
  show "\<exists>n. stops_within n tag_value pos \<or> (\<exists>f \<in> set (decoded n tag_value pos). fst f = ''01'')"
  proof (cases "read_field tag_value pos")
    case None
    then have "stops_within 1 tag_value pos" by (simp add: stops_within_def)
    then show ?thesis by blast
  next
    case (Some g)
    obtain t l w where tlv: "g = (t, l, w)" by (cases g)
    show ?thesis
    proof (cases "t = ''01''")
      case True
      with Some tlv have "\<exists>f \<in> set (decoded 1 tag_value pos). fst f = ''01''" by simp
      then show ?thesis by blast
    next
      case False
      with Some tlv body have "loop tag_value (pos + 4 + l) = Some y"
        by (auto simp: read_field_def Let_def split: if_splits option.splits)
      from IH [OF this] obtain n where
        "stops_within n tag_value (pos + 4 + l)
          \<or> (\<exists>f \<in> set (decoded n tag_value (pos + 4 + l)). fst f = ''01'')" ..
      with Some tlv have "stops_within (Suc n) tag_value pos
          \<or> (\<exists>f \<in> set (decoded (Suc n) tag_value pos). fst f = ''01'')"
        by (auto simp: stops_within_def)
      then show ?thesis by blast
    qed
  qed
qed

text \<open>
  C6 (the code at the failing input). The payload \<open>260400-4\<close> parses to a document whose
  tag 26 holds \<open>00-4\<close> and which has no tag 51. In that container the sub-tag 01 is never
  found, but the accessor does not return the empty string: the length \<open>-4\<close> leaves the
  cursor where it is and the scan never ends.
\<close>

theorem acquiring_id_never_returns:
  "Option.bind (QRISParser ''260400-4'')
     (\<lambda>p. Some (get_value (p_data p) ''26'', get_value (p_data p) ''51'')) = Some (''00-4'', [])
   \<and> Option.bind (QRISParser ''260400-4'') acquiring_id = None"
proof -
  have a: "Option.bind (QRISParser ''260400-4'')
     (\<lambda>p. Some (get_value (p_data p) ''26'', get_value (p_data p) ''51'')) = Some (''00-4'', [])"
    by code_simp
  then obtain p where p: "QRISParser ''260400-4'' = Some p"
    and v: "get_value (p_data p) ''26'' = ''00-4''" "get_value (p_data p) ''51'' = []"
    by (auto simp: bind_eq_Some_conv)
  have "acquiring_id_loop ''00-4'' 0 = None"
  proof (cases "acquiring_id_loop ''00-4'' 0")
    case (Some y)
    from acquiring_id_loop_ends [OF this] show ?thesis
      by (simp add: stops_within_def decoded_negative_length)
  qed simp
  with v have "acquiring_id p = None" by (simp add: acquiring_id_def)
  with a p show ?thesis by simp
qed

text \<open>
  C8 (counterexample). The summary of the document parsed from \<open>5902AB\<close> holds all ten
  labels; nine of them carry the empty string.
\<close>

theorem get_info_keeps_empty_values:
  "Option.bind (QRISParser ''5902AB'') get_info =
     Some [(''Merchant Name'', ''AB''), (''Merchant City'', []), (''NMID'', []),
           (''Terminal ID'', []), (''Acquiring ID'', []), (''Country Code'', []),
           (''Postal Code'', []), (''Merchant Category'', []), (''Currency'', []),
           (''Checksum'', [])]"
  by code_simp

text \<open>
  C8 (amended). Whenever \<open>get_info\<close> returns, its result lists all ten labels in the fixed
  order, each with the value of its accessor, empty or not. Entries with an empty value
  are left out only by \<open>display_info\<close>, which prints one line for each entry of
  \<open>get_info\<close> whose value is not empty.
\<close>

theorem get_info_all_labels:
  assumes "get_info p = Some info"
  shows "map fst info =
        [''Merchant Name'', ''Merchant City'', ''NMID'', ''Terminal ID'', ''Acquiring ID'',
         ''Country Code'', ''Postal Code'', ''Merchant Category'', ''Currency'', ''Checksum'']
      \<and> map (Some \<circ> snd) info =
        [Some (merchant_name p), Some (merchant_city p), nmid p, terminal_id p, acquiring_id p,
         Some (get_value (p_data p) ''58''), Some (get_value (p_data p) ''61''),
         Some (get_value (p_data p) ''52''), Some (get_value (p_data p) ''53''),
         Some (checksum p)]
      \<and> display_info p =
          Some ([CHR 0x0A # replicate 50 CHR ''='', ''          QRIS MERCHANT INFORMATION'',
                 replicate 50 CHR ''='']
               @ map info_line (filter (\<lambda>kv. snd kv \<noteq> []) info)
               @ [replicate 50 CHR ''-'', ''  QRIS Raw Value:'', ''  '' @ p_raw p,
                  replicate 50 CHR ''='' @ [CHR 0x0A]])"
  using assms by (auto simp: get_info_def display_info_def bind_eq_Some_conv)

theorem get_info_all_labels_witness:
  "Option.bind (QRISParser ''5902AB'') (\<lambda>p. map_option (map fst) (get_info p)) =
     Some [''Merchant Name'', ''Merchant City'', ''NMID'', ''Terminal ID'', ''Acquiring ID'',
           ''Country Code'', ''Postal Code'', ''Merchant Category'', ''Currency'', ''Checksum'']"
proof -
  have "map_option (map snd) (Option.bind (QRISParser ''5902AB'') get_info)
      = Some [''AB'', [], [], [], [], [], [], [], [], []]" by code_simp
  then obtain p info where p: "QRISParser ''5902AB'' = Some p" and i: "get_info p = Some info"
    by (auto simp: bind_eq_Some_conv)
  from get_info_all_labels [OF i] p i show ?thesis by simp
qed

section \<open>The validator (4.6)\<close>

lemma py_slice_nat: "py_slice s (int a) (int b) = take (b - a) (drop a s)"
  by (auto simp: py_slice_def py_index_def Let_def min_def)

lemma py_in_iff: "py_in sub s \<longleftrightarrow> (\<exists>i. occurs_at s sub i)"
proof -
  have "occurs_at s sub i \<Longrightarrow> i < Suc (length s)" for i
    by (simp add: occurs_at_def)
  then show ?thesis by (auto simp: py_in_def list_ex_iff simp del: upt_Suc)
qed

lemma startswith_000201: "startswith d (utext ''000201'') \<longleftrightarrow> take 6 d = utext ''000201''"
proof -
  have "length (utext ''000201'') = 6" by (simp add: utext_def)
  then show ?thesis by (simp only: startswith_def)
qed

lemma py_rfind_last:
  assumes "occurs_at s sub i" and "\<forall>j>i. \<not> occurs_at s sub j"
  shows "py_rfind s sub = int i"
proof -
  have i: "i < Suc (length s)" using assms(1) by (simp add: occurs_at_def)
  have "[0..<Suc (length s)] = [0..<i] @ i # [Suc i..<Suc (length s)]"
    using i by (metis le_add1 less_imp_add_positive upt_add_eq_append upt_conv_Cons zero_le
        less_eq_nat.simps(1) upt_eq_Cons_conv)
  then have "rev [0..<Suc (length s)] = rev [Suc i..<Suc (length s)] @ i # rev [0..<i]"
    by simp
  moreover have "filter (occurs_at s sub) (rev [Suc i..<Suc (length s)]) = []"
    using assms(2) by (auto simp: filter_empty_conv)
  ultimately have "filter (occurs_at s sub) (rev [0..<Suc (length s)])
      = i # filter (occurs_at s sub) (rev [0..<i])"
    using assms(1) by simp
  then show ?thesis by (simp add: py_rfind_def)
qed

lemma encode_text_utext: "encode_text (utext s) = Some (encode s)"
  by (induction s) (simp_all add: utext_def encode_def encode_uchar_def)

lemma take_utext: "take n (utext s) = utext (take n s)"
  by (simp add: utext_def take_map)

lemma validate_qris_valid:
  assumes "50 \<le> length d" and "take 6 d = utext ''000201''"
    and "occurs_at d (utext ''6304'') i" and "\<forall>j>i. \<not> occurs_at d (utext ''6304'') j"
    and "i + 8 \<le> length d"
    and "encode_text (take (i + 4) d) = Some bs"
    and "py_upper (take 4 (drop (i + 4) d)) = utext (format_04X (crc16 bs))"
    and "occurs_at d (utext ''59'') k"
  shows "validate_qris d = Inr (True, utext ''QRIS valid'')"
proof -
  from assms(3,4) have r: "py_rfind d (utext ''6304'') = int i" by (simp add: py_rfind_last)
  from assms(3) have m: "\<exists>i. occurs_at d (utext ''6304'') i" by blast
  from assms(8) have n: "\<exists>k. occurs_at d (utext ''59'') k" by blast
  have s1: "py_slice d 0 (int i + 4) = take (i + 4) d"
    using py_slice_nat [of d 0 "i + 4"] by simp
  have s2: "py_slice d (int i + 4) (int i + 8) = take 4 (drop (i + 4) d)"
    using py_slice_nat [of d "i + 4" "i + 8"] by simp
  show ?thesis
    using assms(1,2,5,6,7)
    by (simp add: validate_qris_def startswith_000201 Let_def r m n s1 s2 py_in_iff)
qed


lemma sample_checksum:
  "calculate_checksum ''0002010102115204541153033605802ID5908TOKO ABC6007JAKARTA6105123456304''
     = ''4AEE''"
  by (simp add: checksum_eval)

section \<open>Round trip\<close>

lemma digit_not_int_space: "is_digit c \<Longrightarrow> \<not> is_int_space c"
  by (auto simp: is_digit_def is_int_space_def Let_def)

lemma digit_not_space: "is_digit c \<Longrightarrow> \<not> is_space c"
  by (auto simp: is_digit_def is_space_def Let_def)

lemma digit_not_sign: "is_digit c \<Longrightarrow> c \<noteq> CHR ''+'' \<and> c \<noteq> CHR ''-''"
  by (auto simp: is_digit_def code_point_def)

lemma py_int_two_digits:
  assumes "is_digit a" and "is_digit b"
  shows "py_int [a, b] = Some (10 * digit_val a + digit_val b)"
  using assms digit_not_int_space [of a] digit_not_int_space [of b] digit_not_sign [of a]
  by (simp add: py_int_def int_unsigned_def)

lemma digit_char_props:
  assumes "k < 10"
  shows "is_digit (digit_char k)" and "digit_val (digit_char k) = int k"
  using assms by (simp_all add: is_digit_def digit_val_def digit_char_def code_point_def)

lemma digit_char_0: "digit_char 0 = CHR ''0''"
  by (simp add: digit_char_def char_of_eq_iff)

lemma fmt_02d_digits:
  assumes "n \<le> 99"
  shows "fmt_02d (int n) = [digit_char (n div 10), digit_char (n mod 10)]"
proof (cases "n < 10")
  case True
  then have "nat_str n = [digit_char n]" by (subst nat_str.simps) simp
  with True show ?thesis by (simp add: fmt_02d_def digit_char_0)
next
  case False
  with assms have "n div 10 < 10" by simp
  then have "nat_str (n div 10) = [digit_char (n div 10)]" by (subst nat_str.simps) simp
  with False have "nat_str n = [digit_char (n div 10), digit_char (n mod 10)]"
    by (subst nat_str.simps) simp
  then show ?thesis by (simp add: fmt_02d_def)
qed

lemma py_int_fmt_02d:
  assumes "n \<le> 99"
  shows "py_int (fmt_02d (int n)) = Some (int n)"
proof -
  from assms have a: "n div 10 < 10" and b: "n mod 10 < 10" by simp_all
  have "py_int [digit_char (n div 10), digit_char (n mod 10)]
      = Some (10 * int (n div 10) + int (n mod 10))"
    using py_int_two_digits [OF digit_char_props(1) [OF a] digit_char_props(1) [OF b]]
    by (simp add: digit_char_props(2) [OF a] digit_char_props(2) [OF b])
  also have "10 * int (n div 10) + int (n mod 10) = int n"
  proof -
    have "int (10 * (n div 10) + n mod 10) = int n" by (simp only: mult_div_mod_eq)
    then show ?thesis by (simp only: of_nat_add of_nat_mult of_nat_numeral)
  qed
  finally show ?thesis by (simp add: fmt_02d_digits [OF assms])
qed

lemma read_field_wire:
  assumes "length t = 2" and "length v \<le> 99"
  shows "read_field (pre @ wire (t, int (length v), v) @ rest) (int (length pre))
       = Some (t, int (length v), v)"
proof -
  define ln where "ln = fmt_02d (int (length v))"
  define d where "d = pre @ t @ ln @ v @ rest"
  have ll: "length ln = 2" by (simp add: ln_def fmt_02d_digits [OF assms(2)])
  have w: "pre @ wire (t, int (length v), v) @ rest = d"
    by (simp add: wire_def d_def ln_def)
  have l: "length d = length pre + 4 + length v + length rest"
    by (simp add: d_def ll assms(1))
  have e2: "int (length pre) + 2 = int (length pre + 2)"
    and e4: "int (length pre) + 4 = int (length pre + 4)"
    and e5: "int (length pre + 4) + int (length v) = int (length pre + 4 + length v)"
    by simp_all
  have s1: "py_slice d (int (length pre)) (int (length pre) + 2) = t"
    unfolding e2 py_slice_nat using assms(1) by (simp add: d_def)
  have s2: "py_slice d (int (length pre) + 2) (int (length pre) + 4) = ln"
    unfolding e2 e4 py_slice_nat using assms(1) ll by (simp add: d_def)
  have s3: "py_slice d (int (length pre) + 4) (int (length pre) + 4 + int (length v)) = v"
    unfolding e4 e5 py_slice_nat using assms(1) ll by (simp add: d_def)
  have i: "py_int ln = Some (int (length v))"
    unfolding ln_def by (rule py_int_fmt_02d [OF assms(2)])
  show ?thesis
    unfolding w by (simp add: read_field_def l s1 s2 s3 i)
qed

lemma length_wire: "length v \<le> 99 \<Longrightarrow> length (wire (t, int (length v), v)) = length t + 2 + length v"
  by (simp add: wire_def fmt_02d_digits)

lemma decoded_wire:
  assumes "\<forall>g \<in> set gs. length (fst g) = 2 \<and> fst (snd g) = int (length (snd (snd g)))
             \<and> length (snd (snd g)) \<le> 99"
  shows "decoded (Suc (length gs)) (pre @ concat (map wire gs)) (int (length pre)) = gs"
  using assms
proof (induction gs arbitrary: pre)
  case Nil
  show ?case by (simp add: read_field_def)
next
  case (Cons g gs)
  obtain t l v where g: "g = (t, l, v)" by (cases g)
  with Cons.prems have t: "length t = 2" and l: "l = int (length v)" and v: "length v \<le> 99"
    by simp_all
  have r: "read_field (pre @ concat (map wire (g # gs))) (int (length pre)) = Some (t, l, v)"
    using read_field_wire [OF t v, of pre "concat (map wire gs)"] by (simp add: g l)
  have n: "int (length pre) + 4 + l = int (length (pre @ wire g))"
    by (simp add: g l length_wire [OF v] t)
  from Cons.prems have "\<forall>g \<in> set gs. length (fst g) = 2
      \<and> fst (snd g) = int (length (snd (snd g))) \<and> length (snd (snd g)) \<le> 99" by simp
  from Cons.IH [OF this, of "pre @ wire g"]
  have "decoded (Suc (length gs)) (pre @ concat (map wire (g # gs))) (int (length pre) + 4 + l) = gs"
    by (simp add: n)
  with r show ?case by (simp add: g)
qed

lemma py_strip_id:
  assumes "s \<noteq> []" and "\<not> is_space (hd s)" and "\<not> is_space (last s)"
  shows "py_strip s = s"
proof -
  from assms(1,2) have a: "dropWhile is_space s = s" by (cases s) simp_all
  from assms(1) obtain y ys where r: "rev s = y # ys" by (cases "rev s") simp_all
  then have "y = hd (rev s)" by simp
  also have "\<dots> = last s" using assms(1) by (simp add: hd_rev)
  finally have "\<not> is_space y" using assms(3) by simp
  with r have "dropWhile is_space (rev s) = rev s" by simp
  with a show ?thesis by (simp add: py_strip_def)
qed

lemma hex_not_space: "is_upper_hex c \<Longrightarrow> \<not> is_space c"
  by (auto simp: is_upper_hex_def is_space_def Let_def)


lemma fmt_02d_4: "fmt_02d 4 = ''04''"
proof -
  have "digit_char 4 = CHR ''4''" by (simp add: digit_char_def char_of_eq_iff)
  with fmt_02d_digits [of 4] show ?thesis by (simp add: digit_char_0)
qed

lemma max_len_le_99: "max_len t \<le> 99"
  by (simp add: max_len_def)

lemma build_well_formed:
  assumes "list_all well_formed_field fs"
  shows "Option.bind (QRISEditor (serialise fs)) build = Some (Inr (serialise fs))"
proof -
  define gs0 where "gs0 = map (\<lambda>f. (fst f, int (length (snd f)), snd f)) fs"
  define body where "body = concat (map wire gs0) @ ''6304''"
  define cs where "cs = calculate_checksum body"
  define gs where "gs = gs0 @ [(''63'', 4, cs)]"
  define raw where "raw = serialise fs"
  have ft: "map field_text fs = map wire gs0"
    by (simp add: gs0_def field_text_def case_prod_beta)
  have raw_eq: "raw = body @ cs"
    by (simp add: raw_def serialise_def assemble_def ft body_def cs_def Let_def)
  have cs4: "length cs = 4" by (simp add: cs_def calculate_checksum_def format_04X_def)
  have cshex: "list_all is_upper_hex cs"
    by (simp add: cs_def calculate_checksum_def format_04X_upper_hex)
  have raw_gs: "raw = concat (map wire gs)"
    by (simp add: raw_eq body_def gs_def wire_def fmt_02d_4)
  have wf: "\<forall>f \<in> set fs. length (fst f) = 2 \<and> list_all is_digit (fst f) \<and> fst f \<noteq> ''63''
      \<and> int (length (snd f)) \<le> max_len (fst f)"
    using assms by (auto simp: list_all_iff well_formed_field_def)
  have p0: "\<forall>g \<in> set gs0. length (fst g) = 2 \<and> fst (snd g) = int (length (snd (snd g)))
      \<and> length (snd (snd g)) \<le> 99 \<and> fst g \<noteq> ''63'' \<and> fst (snd g) \<le> max_len (fst g)"
  proof
    fix g assume "g \<in> set gs0"
    then obtain f where f: "f \<in> set fs" and g: "g = (fst f, int (length (snd f)), snd f)"
      by (auto simp: gs0_def)
    from wf f max_len_le_99 [of "fst f"] have "length (snd f) \<le> 99" by fastforce
    with wf f g show "length (fst g) = 2 \<and> fst (snd g) = int (length (snd (snd g)))
      \<and> length (snd (snd g)) \<le> 99 \<and> fst g \<noteq> ''63'' \<and> fst (snd g) \<le> max_len (fst g)"
      by simp
  qed
  then have p: "\<forall>g \<in> set gs. length (fst g) = 2 \<and> fst (snd g) = int (length (snd (snd g)))
      \<and> length (snd (snd g)) \<le> 99"
    by (auto simp: gs_def cs4)
  from decoded_wire [OF p, of "[]"] have d: "decoded (Suc (length gs)) raw 0 = gs"
    by (simp add: raw_gs)
  then have st: "stops_within (Suc (length gs)) raw 0" by (simp add: stops_within_def)
  have ne: "raw \<noteq> []" by (simp add: raw_eq body_def)
  have hd: "\<not> is_space (hd raw)"
  proof (cases fs)
    case Nil
    then have "hd raw = CHR ''6''" by (simp add: raw_eq body_def gs0_def)
    then show ?thesis by (simp add: is_space_def code_point_def)
  next
    case (Cons f fs')
    with wf have "length (fst f) = 2" and dg: "list_all is_digit (fst f)" by simp_all
    then obtain a b where ab: "fst f = [a, b]"
      by (cases "fst f"; cases "tl (fst f)") auto
    with Cons have "hd raw = a"
      by (simp add: raw_eq body_def gs0_def wire_def)
    with dg ab show ?thesis by (simp add: digit_not_space)
  qed
  have "cs \<noteq> []" using cs4 by auto
  then have "last raw = last cs" and "last cs \<in> set cs" by (simp_all add: raw_eq)
  with cshex have lt: "\<not> is_space (last raw)" by (auto simp: list_all_iff hex_not_space)
  have strip: "py_strip raw = raw" by (rule py_strip_id [OF ne hd lt])
  from parse_loop_decoded [OF st, of Map.empty]
  have ed: "QRISEditor raw = Some \<lparr>e_raw = raw,
      e_parser = \<lparr>p_raw = raw, p_data = foldl store Map.empty (decoded (Suc (length gs)) raw 0)\<rparr>,
      modifications = Map.empty\<rparr>"
    by (simp add: QRISEditor_def QRISParser_def strip Let_def)
  have sub: "substituted Map.empty g = g" for g :: tlv
    by (cases g) (simp add: substituted_def)
  have nf: "find (overlong Map.empty) gs = None"
    using p0 by (auto simp: find_None_iff gs_def overlong_def too_long_field_def sub)
  have "filter (\<lambda>f. fst f \<noteq> ''63'') gs = gs0"
    using p0 by (simp add: gs_def)
  then have em: "emitted Map.empty gs = map wire gs0" by (simp add: emitted_def sub)
  from build_loop_emitted [OF st, of Map.empty "[]"] nf d em
  have "build_loop raw Map.empty 0 [] = Some (Inr (map wire gs0))" by simp
  then have "build \<lparr>e_raw = raw,
      e_parser = \<lparr>p_raw = raw, p_data = foldl store Map.empty (decoded (Suc (length gs)) raw 0)\<rparr>,
      modifications = Map.empty\<rparr> = Some (Inr (assemble (map wire gs0)))"
    by (simp add: build_Inr)
  with ed show ?thesis by (simp add: raw_def [symmetric]) (simp add: raw_def serialise_def ft)
qed

lemma lower_6304_last: "occurs_at (utext lower_payload) (utext ''6304'') 65
    \<and> (\<forall>j>65. \<not> occurs_at (utext lower_payload) (utext ''6304'') j)"
proof -
  have a: "occurs_at (utext lower_payload) (utext ''6304'') 65" by code_simp
  have b: "\<forall>j \<in> set [66..<70]. \<not> occurs_at (utext lower_payload) (utext ''6304'') j"
    by code_simp
  have l: "length (utext lower_payload) = 73" by (simp add: lower_payload_def utext_def)
  have "\<not> occurs_at (utext lower_payload) (utext ''6304'') j" if "j > 65" for j
  proof (cases "j < 70")
    case True
    with that have "j = 66 \<or> j = 67 \<or> j = 68 \<or> j = 69" by arith
    with b show ?thesis by auto
  next
    case False
    with l show ?thesis by (simp add: occurs_at_def utext_def)
  qed
  with a show ?thesis by blast
qed

text \<open>
  C1 (counterexample). The validator accepts a payload whose checksum digits are in lower
  case (it upper-cases them before comparing), so the checksum was already correct; the
  rebuilt payload carries the checksum in upper case and is not byte-identical.
\<close>

theorem build_changes_accepted_payload:
  "validate_qris (utext lower_payload) = Inr (True, utext ''QRIS valid'')
   \<and> Option.bind (QRISEditor lower_payload) build = Some (Inr sample_payload)
   \<and> sample_payload \<noteq> lower_payload"
proof -
  have t: "take (65 + 4) (utext lower_payload)
      = utext ''0002010102115204541153033605802ID5908TOKO ABC6007JAKARTA6105123456304''"
    by (simp add: lower_payload_def take_utext)
  have u: "py_upper (take 4 (drop (65 + 4) (utext lower_payload))) = utext ''4AEE''" by code_simp
  have c: "format_04X (crc16 (encode
      ''0002010102115204541153033605802ID5908TOKO ABC6007JAKARTA6105123456304'')) = ''4AEE''"
    using sample_checksum by (simp only: calculate_checksum_def)
  have k: "occurs_at (utext lower_payload) (utext ''59'') 33" by code_simp
  have v: "validate_qris (utext lower_payload) = Inr (True, utext ''QRIS valid'')"
  proof (rule validate_qris_valid [where i = 65 and k = 33])
    show "50 \<le> length (utext lower_payload)" by (simp add: lower_payload_def utext_def)
    show "take 6 (utext lower_payload) = utext ''000201''"
      by (simp add: lower_payload_def take_utext)
    show "occurs_at (utext lower_payload) (utext ''6304'') 65" using lower_6304_last by simp
    show "\<forall>j>65. \<not> occurs_at (utext lower_payload) (utext ''6304'') j"
      using lower_6304_last by simp
    show "65 + 8 \<le> length (utext lower_payload)" by (simp add: lower_payload_def utext_def)
    show "encode_text (take (65 + 4) (utext lower_payload)) = Some (encode
        ''0002010102115204541153033605802ID5908TOKO ABC6007JAKARTA6105123456304'')"
      by (simp only: t encode_text_utext)
    show "py_upper (take 4 (drop (65 + 4) (utext lower_payload)))
        = utext (format_04X (crc16 (encode
            ''0002010102115204541153033605802ID5908TOKO ABC6007JAKARTA6105123456304'')))"
      by (simp only: u c)
    show "occurs_at (utext lower_payload) (utext ''59'') 33" by (rule k)
  qed
  have "map_option e_raw (QRISEditor lower_payload) = Some lower_payload" by code_simp
  then obtain e where e: "QRISEditor lower_payload = Some e" and raw: "e_raw e = lower_payload"
    by auto
  from QRISEditor_fields [OF e] have m: "modifications e = Map.empty" by simp
  have st: "stops_within 10 lower_payload 0" by code_simp
  have nf: "find (overlong Map.empty) (decoded 10 lower_payload 0) = None" by code_simp
  have em: "emitted Map.empty (decoded 10 lower_payload 0)
      = [''000201'', ''010211'', ''52045411'', ''5303360'', ''5802ID'', ''5908TOKO ABC'',
         ''6007JAKARTA'', ''610512345'']"
    by code_simp
  from build_loop_emitted [OF st nf, of "[]"]
  have "build e = Some (Inr (assemble [''000201'', ''010211'', ''52045411'', ''5303360'',
      ''5802ID'', ''5908TOKO ABC'', ''6007JAKARTA'', ''610512345'']))"
    by (simp add: build_Inr raw m em)
  also have "assemble [''000201'', ''010211'', ''52045411'', ''5303360'',
      ''5802ID'', ''5908TOKO ABC'', ''6007JAKARTA'', ''610512345''] = sample_payload"
    by (simp add: assemble_def sample_checksum sample_payload_def)
  finally have b: "Option.bind (QRISEditor lower_payload) build = Some (Inr sample_payload)"
    using e by simp
  have "sample_payload \<noteq> lower_payload" by (simp add: sample_payload_def lower_payload_def)
  with v b show ?thesis by blast
qed

text \<open>
  C1 (amended). A payload that serialises a list of fields (a tag of two decimal digits
  other than 63, a value no longer than its tag allows, the length written as the
  two-digit character count of the value), followed by \<open>6304\<close> and its checksum in
  upper case, is reproduced by \<open>build\<close> with an empty Override Set byte for byte: the
  same fields in the same order and the same checksum.
\<close>

theorem build_reproduces_well_formed_payload:
  assumes "list_all well_formed_field fs"
  shows "Option.bind (QRISEditor (serialise fs)) build = Some (Inr (serialise fs))
      \<and> serialise fs
          = concat (map (\<lambda>f. fst f @ fmt_02d (int (length (snd f))) @ snd f) fs) @ ''6304''
            @ calculate_checksum
                (concat (map (\<lambda>f. fst f @ fmt_02d (int (length (snd f))) @ snd f) fs) @ ''6304'')"
proof
  show "Option.bind (QRISEditor (serialise fs)) build = Some (Inr (serialise fs))"
    by (rule build_well_formed [OF assms])
  have ft: "map field_text fs = map (\<lambda>f. fst f @ fmt_02d (int (length (snd f))) @ snd f) fs"
    by (simp add: field_text_def wire_def case_prod_beta)
  show "serialise fs
          = concat (map (\<lambda>f. fst f @ fmt_02d (int (length (snd f))) @ snd f) fs) @ ''6304''
            @ calculate_checksum
                (concat (map (\<lambda>f. fst f @ fmt_02d (int (length (snd f))) @ snd f) fs) @ ''6304'')"
    unfolding serialise_def assemble_def Let_def ft by simp
qed

theorem build_reproduces_well_formed_payload_witness:
  "Option.bind (QRISEditor sample_payload) build = Some (Inr sample_payload)"
proof -
  let ?fs = "[(''00'', ''01''), (''01'', ''11''), (''52'', ''5411''), (''53'', ''360''),
      (''58'', ''ID''), (''59'', ''TOKO ABC''), (''60'', ''JAKARTA''), (''61'', ''12345'')]"
  have w: "list_all well_formed_field ?fs" by code_simp
  have "map field_text ?fs = [''000201'', ''010211'', ''52045411'', ''5303360'', ''5802ID'',
      ''5908TOKO ABC'', ''6007JAKARTA'', ''610512345'']"
    by code_simp
  then have "serialise ?fs = sample_payload"
    by (simp add: serialise_def assemble_def sample_checksum sample_payload_def)
  with build_reproduces_well_formed_payload [OF w] show ?thesis by simp
qed

end
